theory Spec2Isabelle
  imports Main "HOL-Library.AList" "HOL-Library.Multiset"
begin

section \<open>Data model\<close>

text \<open>
  The exceptions the modelled functions can raise: \<open>KeyError\<close> from indexing a dict with a
  key it does not hold, \<open>ValueError\<close> from \<^verbatim>\<open>range\<close> with a step of zero.
\<close>

datatype error = KeyError | ValueError

text \<open>
  \<^verbatim>\<open>Album\<close> (spotify_types.py) is a \<^verbatim>\<open>TypedDict\<close>. The engine reads three of its keys:
  \<^verbatim>\<open>"id"\<close>, \<^verbatim>\<open>"name"\<close> and \<^verbatim>\<open>"popularity"\<close>. Every album and track object of the catalogue
  carries the first two; the third is there in a full object only ("popularity in in a
  full Album dict"), so it is optional here and reading it where it is absent raises
  \<open>KeyError\<close>. The field for \<^verbatim>\<open>"id"\<close> is called \<open>ident\<close>, since \<open>id\<close> is the identity function
  of HOL. The other keys of the dict, which the engine carries along and never reads, are
  the extension of the record: the engine is defined on \<open>'a album_scheme\<close>.
\<close>

record album =
  ident :: string
  name :: string
  popularity :: "int option"

text \<open>\<^verbatim>\<open>AlbumMatch\<close> (spotify_types.py), a named tuple.\<close>

record album_match =
  album_name :: string
  score :: int
  album_id :: string

text \<open>
  A scorer gives the similarity of a query name and a candidate name as an integer
  (\<^verbatim>\<open>Scorer\<close> in spotify_types.py; \<^verbatim>\<open>fuzz.token_set_ratio\<close> and \<^verbatim>\<open>fuzz.token_sort_ratio\<close> are the
  ones the repository passes).
\<close>

type_synonym scorer = "string \<Rightarrow> string \<Rightarrow> int"

section \<open>Python's dicts, comprehensions and sorting\<close>

text \<open>
  A dict keeps its keys in insertion order; storing under a key it already holds replaces
  the value and leaves the key where it is. That is \<open>AList.update\<close> on an association list.
  \<open>dict_of\<close> is the dict comprehension \<^verbatim>\<open>{k: v for ...}\<close> over a list of key-value pairs.
\<close>

definition dict_of :: "('k \<times> 'v) list \<Rightarrow> ('k \<times> 'v) list" where
  "dict_of kvs = foldl (\<lambda>d (k, v). AList.update k v d) [] kvs"

text \<open>\<^verbatim>\<open>d[k]\<close>: the value stored under \<open>k\<close>, or \<open>KeyError\<close>.\<close>

definition dict_get :: "('k \<times> 'v) list \<Rightarrow> 'k \<Rightarrow> error + 'v" where
  "dict_get d k = (case map_of d k of None \<Rightarrow> Inl KeyError | Some v \<Rightarrow> Inr v)"

text \<open>
  A list comprehension \<^verbatim>\<open>[f(x) for x in xs]\<close> whose body may raise: the first exception,
  in list order, is the result.
\<close>

fun map_result :: "('a \<Rightarrow> error + 'b) \<Rightarrow> 'a list \<Rightarrow> error + 'b list" where
  "map_result f [] = Inr []"
| "map_result f (x # xs) =
     (case f x of
        Inl e \<Rightarrow> Inl e
      | Inr y \<Rightarrow> (case map_result f xs of Inl e \<Rightarrow> Inl e | Inr ys \<Rightarrow> Inr (y # ys)))"

text \<open>
  \<^verbatim>\<open>sorted(xs, key=key, reverse=True)\<close>: the keys of all elements are computed first, in
  list order; then the list is reversed, sorted by key with a stable sort, and reversed
  again (which is how the interpreter keeps a reversed sort stable).
\<close>

definition sorted_reverse :: "('a \<Rightarrow> error + int) \<Rightarrow> 'a list \<Rightarrow> error + 'a list" where
  "sorted_reverse key xs =
     (case map_result key xs of
        Inl e \<Rightarrow> Inl e
      | Inr ks \<Rightarrow> Inr (map snd (rev (sort_key fst (rev (zip ks xs))))))"

text \<open>\<^verbatim>\<open>lambda d: d["popularity"]\<close>\<close>

definition popularity_key :: "'a album_scheme \<Rightarrow> error + int" where
  "popularity_key d = (case popularity d of None \<Rightarrow> Inl KeyError | Some p \<Rightarrow> Inr p)"

section \<open>The fuzzy matcher\<close>

text \<open>
  Modelled from the spec: \<^verbatim>\<open>process.extract\<close> of the fuzzywuzzy library, which the repository
  calls and does not contain. By section 4.2 of the specification, matching a query
  against a candidate mapping gives one match per candidate, each carrying the
  candidate's name, its score against the query, and the candidate's identifier; the
  order of the matches carries no meaning (the engine only filters, counts and tests
  membership). The candidates are taken in the order of the mapping.
\<close>

definition process_extract :: "string \<Rightarrow> (string \<times> string) list \<Rightarrow> scorer \<Rightarrow> (string \<times> int \<times> string) list" where
  "process_extract query choices scorer = map (\<lambda>(key, choice). (choice, scorer query choice, key)) choices"

section \<open>The deduplication-and-ranking engine\<close>

text \<open>Lines 101--109: the matches of one record against the candidate mapping.\<close>

definition album_matches ::
  "scorer \<Rightarrow> (string \<times> string) list \<Rightarrow> 'a album_scheme \<Rightarrow> album_match list" where
  "album_matches scorer dupe_album_id_names_dict item =
     map (\<lambda>(n, s, k). \<lparr>album_name = n, score = s, album_id = k\<rparr>)
       (process_extract (name item) dupe_album_id_names_dict scorer)"

text \<open>Lines 111--115: the matches scoring strictly above the threshold.\<close>

definition filtered_album_matches ::
  "int \<Rightarrow> scorer \<Rightarrow> (string \<times> string) list \<Rightarrow> 'a album_scheme \<Rightarrow> album_match list" where
  "filtered_album_matches threshold scorer dupe_album_id_names_dict item =
     filter (\<lambda>album_match. score album_match > threshold)
       (album_matches scorer dupe_album_id_names_dict item)"

text \<open>Lines 118--122: the condition under which the record's identifier is appended.\<close>

definition keeps ::
  "int \<Rightarrow> scorer \<Rightarrow> (string \<times> string) list \<Rightarrow> string list \<Rightarrow> 'a album_scheme \<Rightarrow> bool" where
  "keeps threshold scorer dupe_album_id_names_dict extractor_album_ids item =
     (let filtered = filtered_album_matches threshold scorer dupe_album_id_names_dict item
      in length filtered = 1 \<or>
         [album_id i. i \<leftarrow> filtered, album_id i \<in> set extractor_album_ids] = [])"

text \<open>
  Lines 99--123: the loop over the input, threading the list of kept identifiers.
\<close>

fun dedupe_loop ::
  "int \<Rightarrow> scorer \<Rightarrow> (string \<times> string) list \<Rightarrow> string list \<Rightarrow> 'a album_scheme list \<Rightarrow>
   string list" where
  "dedupe_loop threshold scorer d extractor_album_ids [] = extractor_album_ids"
| "dedupe_loop threshold scorer d extractor_album_ids (item # items) =
     dedupe_loop threshold scorer d
       (if keeps threshold scorer d extractor_album_ids item
        then extractor_album_ids @ [ident item]
        else extractor_album_ids)
       items"

text \<open>Lines 96--123: the identifiers kept for an input list.\<close>

definition extractor_ids :: "'a album_scheme list \<Rightarrow> int \<Rightarrow> scorer \<Rightarrow> string list" where
  "extractor_ids albums threshold scorer =
     dedupe_loop threshold scorer (dict_of (map (\<lambda>album. (ident album, name album)) albums)) [] albums"

text \<open>
  Lines 82--135. \<^verbatim>\<open>album.copy()\<close> is a shallow copy, the same value here. The conditional
  expression tests the lengths first and builds and sorts the list of kept records only
  when they differ.
\<close>

definition deduplicate_by_name_and_add_popularity ::
  "'a album_scheme list \<Rightarrow> int \<Rightarrow> scorer \<Rightarrow> error + 'a album_scheme list" where
  "deduplicate_by_name_and_add_popularity albums threshold scorer =
     (let album_id_dict = dict_of (map (\<lambda>album. (ident album, album)) albums);
          extractor_album_ids = extractor_ids albums threshold scorer
      in if length extractor_album_ids \<noteq> length albums
         then (case map_result (dict_get album_id_dict) extractor_album_ids of
                 Inl e \<Rightarrow> Inl e
               | Inr kept \<Rightarrow> sorted_reverse popularity_key kept)
         else Inr albums)"

section \<open>The chunker\<close>

text \<open>
  \<^verbatim>\<open>range(start, stop, step)\<close> for a step that is not zero, as the list of its values.
\<close>

function range_list :: "int \<Rightarrow> int \<Rightarrow> int \<Rightarrow> int list" where
  "range_list start stop step =
     (if 0 < step \<and> start < stop \<or> step < 0 \<and> stop < start
      then start # range_list (start + step) stop step
      else [])"
  by pat_completeness auto
termination
  by (relation "measure (\<lambda>(start, stop, step).
        if 0 < step then nat (stop - start) else nat (start - stop))") auto

text \<open>
  \<^verbatim>\<open>xs[lo:hi]\<close>: a negative bound counts from the end, and both bounds are clipped to
  the list.
\<close>

definition slice :: "'a list \<Rightarrow> int \<Rightarrow> int \<Rightarrow> 'a list" where
  "slice xs lo hi =
     (let n = int (length xs);
          l = (if lo < 0 then max (lo + n) 0 else min lo n);
          h = (if hi < 0 then max (hi + n) 0 else min hi n)
      in take (nat (h - l)) (drop (nat l) xs))"

text \<open>
  Lines 142--151. \<open>chunks\<close> is a generator; the model is the list of everything it yields
  when it is run to its end, as each of its callers does. \<^verbatim>\<open>range\<close> raises \<open>ValueError\<close> for
  a step of zero.
\<close>

definition chunks :: "'a list \<Rightarrow> int \<Rightarrow> error + 'a list list" where
  "chunks lst chunk_size =
     (if chunk_size = 0 then Inl ValueError
      else Inr (map (\<lambda>idx. slice lst idx (idx + chunk_size))
                  (range_list 0 (int (length lst)) chunk_size)))"

section \<open>Concrete inputs\<close>

text \<open>
  Scorers and records for the worked examples. \<open>exact_scorer\<close> gives the maximum to equal
  names only. \<open>prefix_scorer\<close> gives it when the query is a prefix of the candidate, so it
  is not symmetric. \<open>uneven_scorer\<close> is symmetric, but the name \<open>''Y''\<close> scores nothing against
  itself. \<open>overlap_scorer\<close> gives the maximum when one name begins or ends with the other: it
  is symmetric and every name matches itself, but it is not transitive. \<open>track\<close> builds a
  full record.
\<close>

definition exact_scorer :: scorer where
  "exact_scorer query choice = (if query = choice then 100 else 0)"

definition prefix_scorer :: scorer where
  "prefix_scorer query choice = (if take (length query) choice = query then 100 else 0)"

definition uneven_scorer :: scorer where
  "uneven_scorer query choice =
     (if query = ''Y'' \<and> choice = ''Y'' then 0
      else if query = ''Y'' \<and> choice = ''Z'' \<or> query = ''Z'' \<and> choice = ''Y'' then 0
      else 100)"

definition overlap_scorer :: scorer where
  "overlap_scorer query choice =
     (if take (length query) choice = query \<or> take (length choice) query = choice
         \<or> drop (length choice - length query) choice = query
         \<or> drop (length query - length choice) query = choice
      then 100 else 0)"

definition track :: "string \<Rightarrow> string \<Rightarrow> int \<Rightarrow> album" where
  "track i n p = \<lparr>ident = i, name = n, popularity = Some p\<rparr>"

section \<open>Properties of the chunker\<close>

declare range_list.simps [simp del]

lemma upt_0_Suc_map: "[0..<Suc m] = 0 # map Suc [0..<m]"
  by (simp only: map_Suc_upt upt_conv_Cons [OF zero_less_Suc])

lemma range_list_pos:
  "0 < c \<Longrightarrow> range_list i n c = map (\<lambda>k. i + int k * c) [0..<nat ((n - i + c - 1) div c)]"
proof (induction i n c rule: range_list.induct)
  case (1 start stop step)
  show ?case
  proof (cases "start < stop")
    case True
    have "(stop - start + step - 1) div step = ((stop - (start + step) + step - 1) + step) div step"
      by (simp add: algebra_simps)
    also have "\<dots> = (stop - (start + step) + step - 1) div step + 1"
      using 1(2) by (intro div_add_self2) simp
    finally have d: "(stop - start + step - 1) div step = (stop - (start + step) + step - 1) div step + 1" .
    have nn: "0 \<le> (stop - (start + step) + step - 1) div step"
      using True 1(2) by (simp add: pos_imp_zdiv_nonneg_iff)
    have s: "nat ((stop - start + step - 1) div step) = Suc (nat ((stop - (start + step) + step - 1) div step))"
      using d nn by simp
    have ih: "range_list (start + step) stop step =
        map (\<lambda>k. start + step + int k * step) [0..<nat ((stop - (start + step) + step - 1) div step)]"
      using 1(1) True 1(2) by simp
    have "range_list start stop step = start # range_list (start + step) stop step"
      using True 1(2) by (subst range_list.simps) simp
    also have "\<dots> = map (\<lambda>k. start + int k * step) [0..<Suc (nat ((stop - (start + step) + step - 1) div step))]"
      unfolding ih upt_0_Suc_map by (simp add: algebra_simps)
    finally show ?thesis unfolding s .
  next
    case False
    have "(stop - start + step - 1) div step \<le> (step - 1) div step"
      using False 1(2) by (intro zdiv_mono1) simp_all
    also have "\<dots> = 0"
      using 1(2) by simp
    finally have "(stop - start + step - 1) div step \<le> 0" .
    then show ?thesis using False 1(2)
      by (subst range_list.simps) simp
  qed
qed

lemma range_list_neg: "c < 0 \<Longrightarrow> 0 \<le> n \<Longrightarrow> range_list 0 n c = []"
  by (subst range_list.simps) simp

lemma slice_chunk:
  "0 \<le> i \<Longrightarrow> 0 < c \<Longrightarrow> slice xs i (i + c) = take (nat c) (drop (nat i) xs)"
  by (auto simp: slice_def Let_def min_def)

lemma chunks_pos:
  assumes "0 < c"
  shows "chunks xs c =
    Inr (map (\<lambda>k. take (nat c) (drop (k * nat c) xs)) [0..<(length xs + nat c - 1) div nat c])"
proof -
  have n: "nat ((int (length xs) - 0 + c - 1) div c) = (length xs + nat c - 1) div nat c"
  proof -
    have "int (length xs) - 0 + c - 1 = int (length xs + nat c - 1)"
      using assms by (simp add: of_nat_diff)
    moreover have "c = int (nat c)"
      using assms by simp
    ultimately have "(int (length xs) - 0 + c - 1) div c = int ((length xs + nat c - 1) div nat c)"
      by (metis zdiv_int)
    then show ?thesis by simp
  qed
  have s: "slice xs (int k * c) (int k * c + c) = take (nat c) (drop (k * nat c) xs)" for k
  proof -
    have "nat (int k * c) = k * nat c"
      using assms by (simp add: nat_mult_distrib)
    then show ?thesis
      using assms slice_chunk [of "int k * c" c xs] by simp
  qed
  show ?thesis
    using assms unfolding chunks_def range_list_pos [OF assms] n by (simp add: s o_def)
qed

lemma concat_chunks:
  "concat (map (\<lambda>k. take c (drop (k * c) xs)) [0..<m]) = take (m * c) xs"
  by (induction m) (simp_all add: take_add [symmetric] add.commute)

lemma ceil_div_bounds:
  fixes n c :: nat
  assumes "0 < c"
  shows "n \<le> ((n + c - 1) div c) * c" and "0 < n \<Longrightarrow> ((n + c - 1) div c - 1) * c < n"
    and "n = 0 \<Longrightarrow> (n + c - 1) div c = 0"
proof -
  let ?m = "(n + c - 1) div c"
  have eq: "?m * c + (n + c - 1) mod c = n + c - 1"
    by simp
  have lt: "(n + c - 1) mod c < c"
    using assms by simp
  show "n \<le> ?m * c"
    using eq lt by linarith
  show "(?m - 1) * c < n" if "0 < n"
  proof -
    have a: "?m * c \<le> n + c - 1" using eq by linarith
    have b: "(?m - 1) * c = ?m * c - c"
      by (simp add: diff_mult_distrib)
    show ?thesis unfolding b using a assms that by linarith
  qed
  show "?m = 0" if "n = 0"
    using that assms by simp
qed

text \<open>
  Claim C6. For a positive chunk size the chunker returns, without error, a list of chunks
  whose concatenation is the input list. There are \<open>\<lceil>length lst / chunk_size\<rceil>\<close> of them;
  every chunk but the last has exactly \<open>chunk_size\<close> elements, and the last one holds the
  remainder: it is not empty and has at most \<open>chunk_size\<close> elements. The empty list gives
  no chunk, and a list of 105 elements cut by 50 gives chunks of 50, 50 and 5 elements.
\<close>

theorem chunks_partition:
  assumes "0 < chunk_size"
  shows "\<exists>cs. chunks lst chunk_size = Inr cs
    \<and> concat cs = lst
    \<and> length cs = (length lst + nat chunk_size - 1) div nat chunk_size
    \<and> (\<forall>k. Suc k < length cs \<longrightarrow> int (length (cs ! k)) = chunk_size)
    \<and> (cs \<noteq> [] \<longrightarrow> 0 < length (last cs) \<and> int (length (last cs)) \<le> chunk_size
          \<and> length (last cs) = length lst - (length cs - 1) * nat chunk_size)
    \<and> (lst = [] \<longrightarrow> cs = [])
    \<and> (length lst = 105 \<and> chunk_size = 50 \<longrightarrow> map length cs = [50, 50, 5])"
proof -
  define c where "c = nat chunk_size"
  define m where "m = (length lst + c - 1) div c"
  define cs where "cs = map (\<lambda>k. take c (drop (k * c) lst)) [0..<m]"
  have c: "0 < c" "int c = chunk_size"
    using assms by (simp_all add: c_def)
  have run: "chunks lst chunk_size = Inr cs"
    unfolding cs_def m_def c_def by (rule chunks_pos [OF assms])
  have len: "length cs = m"
    by (simp add: cs_def)
  have nth: "length (cs ! k) = min c (length lst - k * c)" if "k < m" for k
    using that by (simp add: cs_def min.commute)
  have cover: "length lst \<le> m * c"
    unfolding m_def by (rule ceil_div_bounds(1) [OF c(1)])
  have cat: "concat cs = lst"
    using cover by (simp add: cs_def concat_chunks)
  have before: "(m - 1) * c < length lst" if "cs \<noteq> []"
  proof -
    have "0 < m" using that len by (cases "m = 0") simp_all
    then have "0 < length lst"
      using ceil_div_bounds(3) [OF c(1), of "length lst"] by (auto simp: m_def)
    then show ?thesis
      unfolding m_def by (rule ceil_div_bounds(2) [OF c(1)])
  qed
  have full: "int (length (cs ! k)) = chunk_size" if "Suc k < length cs" for k
  proof -
    have ne: "cs \<noteq> []" using that by auto
    have "Suc k \<le> m - 1" using that len by simp
    then have "Suc k * c \<le> (m - 1) * c"
      by (rule mult_le_mono1)
    then have "k * c + c \<le> length lst"
      using before [OF ne] by simp
    moreover have "k < m" using that len by simp
    ultimately show ?thesis
      using nth [of k] c(2) by simp
  qed
  have lastc: "0 < length (last cs) \<and> int (length (last cs)) \<le> chunk_size
      \<and> length (last cs) = length lst - (length cs - 1) * nat chunk_size" if ne: "cs \<noteq> []"
  proof -
    have m: "0 < m" using ne len by (cases "m = 0") simp_all
    have l: "last cs = cs ! (m - 1)"
      using ne len by (simp add: last_conv_nth)
    have "m * c = (m - 1) * c + c"
      using m by (cases m) simp_all
    then have "length lst - (m - 1) * c \<le> c"
      using cover by linarith
    then have e: "length (last cs) = length lst - (m - 1) * c"
      using nth [of "m - 1"] m l by simp
    have "length (last cs) \<le> c"
      using e \<open>length lst - (m - 1) * c \<le> c\<close> by simp
    then have le: "int (length (last cs)) \<le> chunk_size"
      using c(2) by linarith
    have pos: "0 < length (last cs)"
      using e before [OF ne] by simp
    have "length (last cs) = length lst - (length cs - 1) * nat chunk_size"
      using e len by (simp add: c_def)
    then show ?thesis
      using le pos by blast
  qed
  have emp: "cs = []" if "lst = []"
    using that c(1) by (simp add: cs_def m_def)
  have ex: "map length cs = [50, 50, 5]" if "length lst = 105 \<and> chunk_size = 50"
  proof -
    have "c = 50" using that by (simp add: c_def)
    moreover have "m = 3" using that by (simp add: m_def c_def)
    moreover have "[0..<3] = [0, 1, 2]" by (simp add: upt_rec)
    ultimately show ?thesis
      using that by (simp add: cs_def)
  qed
  have len': "length cs = (length lst + nat chunk_size - 1) div nat chunk_size"
    using len by (simp add: m_def c_def)
  show ?thesis
  proof (intro exI [of _ cs] conjI allI impI)
    show "chunks lst chunk_size = Inr cs" by (rule run)
    show "concat cs = lst" by (rule cat)
    show "length cs = (length lst + nat chunk_size - 1) div nat chunk_size" by (rule len')
    show "int (length (cs ! k)) = chunk_size" if "Suc k < length cs" for k
      using that by (rule full)
    show "0 < length (last cs)" if "cs \<noteq> []"
      using lastc [OF that] by (rule conjunct1)
    show "int (length (last cs)) \<le> chunk_size" if "cs \<noteq> []"
      using lastc [OF that] by (elim conjE)
    show "length (last cs) = length lst - (length cs - 1) * nat chunk_size" if "cs \<noteq> []"
      using lastc [OF that] by (elim conjE)
    show "cs = []" if "lst = []"
      using that by (rule emp)
    show "map length cs = [50, 50, 5]" if "length lst = 105 \<and> chunk_size = 50"
      using that by (rule ex)
  qed
qed

theorem chunks_partition_witness:
  "(0::int) < 2 \<and> chunks [1, 2, 3, 4, 5 :: nat] 2 = Inr [[1, 2], [3, 4], [5]]
   \<and> chunks ([] :: nat list) 2 = Inr []
   \<and> map_sum id (map length) (chunks (replicate 105 (0::nat)) 50) = Inr [50, 50, 5]"
proof -
  have p: "(0::int) < 2" "(0::int) < 50" by simp_all
  obtain cs where cs: "chunks [1, 2, 3, 4, 5 :: nat] 2 = Inr cs" "concat cs = [1, 2, 3, 4, 5]"
    "length cs = 3" "\<forall>k. Suc k < length cs \<longrightarrow> int (length (cs ! k)) = 2"
    using chunks_partition [OF p(1), of "[1, 2, 3, 4, 5 :: nat]"] by auto
  obtain a b c where abc: "cs = [a, b, c]"
    using cs(3) by (auto simp: length_Suc_conv numeral_3_eq_3)
  have "length a = 2" "length b = 2"
    using cs(4) [rule_format, of 0] cs(4) [rule_format, of 1] abc by simp_all
  then have "cs = [[1, 2], [3, 4], [5]]"
    using cs(2) abc by (auto simp: length_Suc_conv numeral_2_eq_2)
  moreover have "chunks ([] :: nat list) 2 = Inr []"
    using chunks_partition [OF p(1), of "[] :: nat list"] by auto
  moreover have "map_sum id (map length) (chunks (replicate 105 (0::nat)) 50) = Inr [50, 50, 5]"
    using chunks_partition [OF p(2), of "replicate 105 (0::nat)"] by auto
  ultimately show ?thesis
    using cs(1) by simp
qed

text \<open>
  Claim C7, as stated, fails: a negative chunk size is not rejected. \<^verbatim>\<open>range\<close> with a
  negative step from 0 up to a length is empty, so the generator yields nothing and
  raises nothing.
\<close>

theorem chunks_nonpositive_counterexample:
  "chunks [1, 2, 3 :: nat] (- 1) = Inr [] \<and> (- 1 :: int) \<le> 0"
  by (simp add: chunks_def range_list_neg)

text \<open>
  Claim C7, amended. A chunk size of zero is rejected with \<open>ValueError\<close> (raised by
  \<^verbatim>\<open>range\<close>) for every input list; a negative chunk size is not rejected, and the chunker
  then produces no chunk at all.
\<close>

theorem chunks_nonpositive:
  "chunks lst 0 = Inl ValueError \<and> (chunk_size < 0 \<longrightarrow> chunks lst chunk_size = Inr [])"
  by (simp add: chunks_def range_list_neg)

theorem chunks_nonpositive_witness:
  "chunks [1, 2, 3 :: nat] 0 = Inl ValueError \<and> (- 5 :: int) < 0 \<and> chunks [1, 2, 3 :: nat] (- 5) = Inr []"
  using chunks_nonpositive [of "[1, 2, 3 :: nat]" "- 5"] by simp

section \<open>Dicts, comprehensions and sorting\<close>

lemma foldl_update_map_of:
  "map_of (foldl (\<lambda>d (k, v). AList.update k v d) d kvs) = map_of d ++ map_of (rev kvs)"
  by (induction kvs arbitrary: d) (auto simp: AList.update_conv' map_add_def fun_eq_iff split: option.splits)

lemma foldl_update_distinct:
  "distinct (map fst d) \<Longrightarrow> distinct (map fst (foldl (\<lambda>d (k, v). AList.update k v d) d kvs))"
  by (induction kvs arbitrary: d) (auto simp: AList.distinct_update)

lemma foldl_update_keys:
  "fst ` set (foldl (\<lambda>d (k, v). AList.update k v d) d kvs) = fst ` set d \<union> fst ` set kvs"
proof (induction kvs arbitrary: d)
  case Nil
  then show ?case by simp
next
  case (Cons kv kvs)
  have "fst ` set (AList.update (fst kv) (snd kv) d) = insert (fst kv) (fst ` set d)"
    by (simp add: AList.dom_update)
  then show ?case
    using Cons.IH [of "AList.update (fst kv) (snd kv) d"] by (simp add: case_prod_beta)
qed

lemma update_fresh: "k \<notin> fst ` set d \<Longrightarrow> AList.update k v d = d @ [(k, v)]"
  by (induction d) auto

lemma foldl_update_fresh:
  "distinct (map fst kvs) \<Longrightarrow> fst ` set d \<inter> fst ` set kvs = {} \<Longrightarrow>
   foldl (\<lambda>d (k, v). AList.update k v d) d kvs = d @ kvs"
proof (induction kvs arbitrary: d)
  case Nil
  then show ?case by simp
next
  case (Cons kv kvs)
  obtain k v where kv: "kv = (k, v)" by (cases kv)
  have "AList.update k v d = d @ [(k, v)]"
    using Cons.prems(2) kv by (intro update_fresh) auto
  moreover have "foldl (\<lambda>d (k, v). AList.update k v d) (d @ [(k, v)]) kvs = (d @ [(k, v)]) @ kvs"
    using Cons.prems kv by (intro Cons.IH) auto
  ultimately show ?case using kv by simp
qed

lemma dict_of_distinct_keys: "distinct (map fst (dict_of kvs))"
  unfolding dict_of_def by (rule foldl_update_distinct) simp

lemma dict_of_keys: "fst ` set (dict_of kvs) = fst ` set kvs"
  unfolding dict_of_def by (simp add: foldl_update_keys)

lemma dict_of_map_of: "map_of (dict_of kvs) = map_of (rev kvs)"
  unfolding dict_of_def by (simp add: foldl_update_map_of)

lemma dict_of_distinct: "distinct (map fst kvs) \<Longrightarrow> dict_of kvs = kvs"
  unfolding dict_of_def using foldl_update_fresh [of kvs "[]"] by simp

lemma dict_of_member: "(k, v) \<in> set (dict_of kvs) \<Longrightarrow> (k, v) \<in> set kvs"
proof -
  assume "(k, v) \<in> set (dict_of kvs)"
  then have "map_of (dict_of kvs) k = Some v"
    using dict_of_distinct_keys [of kvs] by simp
  then have "map_of (rev kvs) k = Some v"
    by (simp add: dict_of_map_of)
  then show ?thesis
    by (auto dest: map_of_SomeD)
qed

lemma dict_get_album:
  assumes "k \<in> ident ` set albums"
  shows "\<exists>a \<in> set albums. ident a = k \<and> dict_get (dict_of (map (\<lambda>album. (ident album, album)) albums)) k = Inr a"
proof -
  let ?kvs = "map (\<lambda>album. (ident album, album)) albums"
  have "k \<in> fst ` set (rev ?kvs)" using assms by force
  then obtain a where a: "map_of (rev ?kvs) k = Some a"
    by (metis domD dom_map_of_conv_image_fst)
  then have "(k, a) \<in> set ?kvs"
    by (auto dest: map_of_SomeD)
  then have "a \<in> set albums" "ident a = k" by auto
  then show ?thesis
    using a by (auto simp: dict_get_def dict_of_map_of)
qed

lemma dict_get_album_distinct:
  assumes "distinct (map ident albums)" "a \<in> set albums"
  shows "dict_get (dict_of (map (\<lambda>album. (ident album, album)) albums)) (ident a) = Inr a"
proof -
  obtain b where b: "b \<in> set albums" "ident b = ident a"
    "dict_get (dict_of (map (\<lambda>album. (ident album, album)) albums)) (ident a) = Inr b"
    using dict_get_album [of "ident a" albums] assms(2) by auto
  have "b = a"
    using assms b(1,2) by (meson distinct_map inj_onD)
  then show ?thesis using b(3) by simp
qed

lemma map_result_InrD:
  "map_result f xs = Inr ys \<Longrightarrow> map f xs = map Inr ys"
  by (induction xs arbitrary: ys) (auto split: sum.splits)

lemma map_result_InrI:
  "map f xs = map Inr ys \<Longrightarrow> map_result f xs = Inr ys"
  by (induction xs arbitrary: ys) (auto split: sum.splits)

lemma map_result_Inl:
  "map_result f xs = Inl e \<Longrightarrow> \<exists>x \<in> set xs. f x = Inl e"
  by (induction xs) (auto split: sum.splits)

lemma map_result_total:
  "(\<And>x. x \<in> set xs \<Longrightarrow> \<exists>y. f x = Inr y) \<Longrightarrow> \<exists>ys. map_result f xs = Inr ys"
  by (induction xs) (fastforce split: sum.splits)+

lemma sorted_reverse_Inr:
  assumes "sorted_reverse key xs = Inr out"
  shows "mset out = mset xs"
    and "\<exists>ks. map key out = map Inr ks \<and> sorted_wrt (\<ge>) ks"
    and "filter (\<lambda>a. key a = Inr k) out = filter (\<lambda>a. key a = Inr k) xs"
proof -
  obtain ks where ks: "map_result key xs = Inr ks"
    and out: "out = map snd (rev (sort_key fst (rev (zip ks xs))))"
    using assms by (auto simp: sorted_reverse_def split: sum.splits)
  define zs where "zs = zip ks xs"
  define Z where "Z = rev (sort_key fst (rev zs))"
  have keys: "map key xs = map Inr ks"
    using ks by (rule map_result_InrD)
  then have len: "length ks = length xs"
    by (metis length_map)
  have zs_key: "key (snd z) = Inr (fst z)" if "z \<in> set zs" for z
  proof -
    from that obtain i where i: "i < length zs" "z = zs ! i"
      unfolding in_set_conv_nth by blast
    then have "map key xs ! i = map Inr ks ! i"
      using keys by simp
    then show ?thesis
      using i len by (simp add: zs_def)
  qed
  have snd_zs: "map snd zs = xs"
    using len by (simp add: zs_def)
  have setZ: "set Z = set zs"
    by (simp add: Z_def)
  have outZ: "out = map snd Z"
    by (simp add: out Z_def zs_def)
  have "mset Z = mset zs"
    by (simp add: Z_def)
  then have "mset (map snd Z) = mset (map snd zs)"
    by (metis mset_map)
  then show "mset out = mset xs"
    by (simp add: outZ snd_zs)
  have "sorted (map fst (sort_key fst (rev zs)))"
    by (rule sorted_sort_key)
  then have "sorted_wrt (\<ge>) (map fst Z)"
    by (simp add: Z_def rev_map [symmetric] sorted_wrt_rev)
  moreover have "map key out = map Inr (map fst Z)"
    using zs_key setZ by (simp add: outZ)
  ultimately show "\<exists>ks. map key out = map Inr ks \<and> sorted_wrt (\<ge>) ks"
    by blast
  have "filter (\<lambda>a. key a = Inr k) (map snd Z) = map snd (filter (\<lambda>z. key (snd z) = Inr k) Z)"
    by (simp add: filter_map o_def)
  also have "filter (\<lambda>z. key (snd z) = Inr k) Z = filter (\<lambda>z. fst z = k) Z"
    using zs_key setZ by (intro filter_cong) auto
  also have "\<dots> = filter (\<lambda>z. fst z = k) zs"
    by (simp add: Z_def rev_filter [symmetric] sort_key_stable)
  also have "\<dots> = filter (\<lambda>z. key (snd z) = Inr k) zs"
    using zs_key by (intro filter_cong) auto
  also have "map snd \<dots> = filter (\<lambda>a. key a = Inr k) (map snd zs)"
    by (simp add: filter_map o_def)
  finally show "filter (\<lambda>a. key a = Inr k) out = filter (\<lambda>a. key a = Inr k) xs"
    by (simp add: outZ snd_zs)
qed

lemma sorted_reverse_Inl:
  "sorted_reverse key xs = Inl e \<Longrightarrow> \<exists>x \<in> set xs. key x = Inl e"
  by (auto simp: sorted_reverse_def split: sum.splits dest: map_result_Inl)

lemma sorted_reverse_total:
  "(\<And>x. x \<in> set xs \<Longrightarrow> \<exists>y. key x = Inr y) \<Longrightarrow> \<exists>out. sorted_reverse key xs = Inr out"
  using map_result_total [of xs key] by (auto simp: sorted_reverse_def split: sum.splits)

lemma popularity_key_Inr: "popularity_key a = Inr p \<longleftrightarrow> popularity a = Some p"
  by (simp add: popularity_key_def split: option.splits)

lemma popularity_key_Inl: "popularity_key a = Inl e \<longleftrightarrow> popularity a = None \<and> e = KeyError"
  by (auto simp: popularity_key_def split: option.splits)

section \<open>The loop of the engine\<close>

lemma filtered_ids:
  "map album_id (filtered_album_matches t sc d item) =
   map fst (filter (\<lambda>kn. t < sc (name item) (snd kn)) d)"
  by (simp add: filtered_album_matches_def album_matches_def process_extract_def
      filter_map o_def case_prod_beta)

lemma keeps_iff:
  "keeps t sc d ext item \<longleftrightarrow>
     length (filtered_album_matches t sc d item) = 1 \<or>
     (\<forall>m \<in> set (filtered_album_matches t sc d item). album_id m \<notin> set ext)"
  by (auto simp: keeps_def Let_def)

lemma dedupe_loop_append:
  "dedupe_loop t sc d ext (xs @ ys) = dedupe_loop t sc d (dedupe_loop t sc d ext xs) ys"
  by (induction xs arbitrary: ext) simp_all

lemma dedupe_loop_prefix:
  "\<exists>ks. dedupe_loop t sc d ext xs = ext @ ks \<and> set ks \<subseteq> ident ` set xs \<and> length ks \<le> length xs"
proof (induction xs arbitrary: ext)
  case Nil
  then show ?case by simp
next
  case (Cons x xs)
  let ?ext = "if keeps t sc d ext x then ext @ [ident x] else ext"
  obtain ks where ks: "dedupe_loop t sc d ?ext xs = ?ext @ ks" "set ks \<subseteq> ident ` set xs"
    "length ks \<le> length xs"
    using Cons.IH [of ?ext] by blast
  show ?case
  proof (cases "keeps t sc d ext x")
    case True
    then have "dedupe_loop t sc d ext (x # xs) = ext @ (ident x # ks)"
      using ks(1) by simp
    then show ?thesis
      using ks(2,3) by (intro exI [of _ "ident x # ks"]) auto
  next
    case False
    then have "dedupe_loop t sc d ext (x # xs) = ext @ ks"
      using ks(1) by simp
    then show ?thesis
      using ks(2,3) by (intro exI [of _ ks]) auto
  qed
qed

lemma extractor_ids_subset: "set (extractor_ids albums t sc) \<subseteq> ident ` set albums"
  using dedupe_loop_prefix [of t sc _ "[]" albums] by (auto simp: extractor_ids_def)

lemma extractor_ids_length: "length (extractor_ids albums t sc) \<le> length albums"
  using dedupe_loop_prefix [of t sc _ "[]" albums] by (auto simp: extractor_ids_def)

lemma extractor_ids_Cons:
  "\<exists>ks. extractor_ids (a # albums) t sc = ident a # ks"
proof -
  let ?d = "dict_of (map (\<lambda>album. (ident album, name album)) (a # albums))"
  have "keeps t sc ?d [] a"
    by (simp add: keeps_iff)
  then have "extractor_ids (a # albums) t sc = dedupe_loop t sc ?d [ident a] albums"
    by (simp add: extractor_ids_def)
  then show ?thesis
    using dedupe_loop_prefix [of t sc ?d "[ident a]" albums] by auto
qed

lemma dedupe_loop_all_kept:
  "(\<And>x ext. x \<in> set xs \<Longrightarrow> keeps t sc d ext x) \<Longrightarrow>
   dedupe_loop t sc d ext xs = ext @ map ident xs"
  by (induction xs arbitrary: ext) simp_all

lemma length_le_one_same:
  "distinct xs \<Longrightarrow> (\<And>x. x \<in> set xs \<Longrightarrow> x = c) \<Longrightarrow> length xs \<le> 1"
  by (cases xs; cases "tl xs") auto

lemma names_dict_member:
  "(k, n) \<in> set (dict_of (map (\<lambda>album. (ident album, name album)) albums)) \<Longrightarrow>
   \<exists>j < length albums. ident (albums ! j) = k \<and> name (albums ! j) = n"
proof -
  assume "(k, n) \<in> set (dict_of (map (\<lambda>album. (ident album, name album)) albums))"
  then have "(k, n) \<in> set (map (\<lambda>album. (ident album, name album)) albums)"
    by (rule dict_of_member)
  then obtain a where "a \<in> set albums" "ident a = k" "name a = n"
    by auto
  then show ?thesis
    by (metis in_set_conv_nth)
qed

lemma no_duplicates_all_kept:
  assumes "\<And>i j. i < length albums \<Longrightarrow> j < length albums \<Longrightarrow> i \<noteq> j \<Longrightarrow>
      scorer (name (albums ! i)) (name (albums ! j)) \<le> threshold"
  shows "extractor_ids albums threshold scorer = map ident albums"
proof -
  let ?d = "dict_of (map (\<lambda>album. (ident album, name album)) albums)"
  have "keeps threshold scorer ?d ext x" if x: "x \<in> set albums" for x ext
  proof -
    obtain i where i: "i < length albums" "x = albums ! i"
      using x by (metis in_set_conv_nth)
    let ?ks = "map album_id (filtered_album_matches threshold scorer ?d x)"
    have ks: "?ks = map fst (filter (\<lambda>kn. threshold < scorer (name x) (snd kn)) ?d)"
      by (rule filtered_ids)
    have "distinct ?ks"
      unfolding ks using dict_of_distinct_keys [of "map (\<lambda>album. (ident album, name album)) albums"]
      by (rule distinct_map_filter)
    moreover have "k = ident x" if "k \<in> set ?ks" for k
    proof -
      from that have "k \<in> fst ` {kn \<in> set ?d. threshold < scorer (name x) (snd kn)}"
        by (simp only: ks set_map set_filter)
      then obtain n where n: "(k, n) \<in> set ?d" "threshold < scorer (name x) n"
        by force
      obtain j where j: "j < length albums" "ident (albums ! j) = k" "name (albums ! j) = n"
        using names_dict_member [OF n(1)] by blast
      have "j = i"
        using assms [OF i(1) j(1)] n(2) j(3) i(2) by force
      then show ?thesis using j(2) i(2) by simp
    qed
    ultimately have "length ?ks \<le> 1"
      by (rule length_le_one_same)
    then have "length (filtered_album_matches threshold scorer ?d x) = 1
      \<or> filtered_album_matches threshold scorer ?d x = []"
      by (cases "filtered_album_matches threshold scorer ?d x") auto
    then show ?thesis
      by (auto simp: keeps_iff)
  qed
  then show ?thesis
    unfolding extractor_ids_def by (simp add: dedupe_loop_all_kept)
qed

lemma loop_split:
  assumes "distinct (map ident (pre @ item # post))"
  shows "set (dedupe_loop t sc d [] pre) =
      set (dedupe_loop t sc d [] (pre @ item # post)) \<inter> ident ` set pre
    \<and> (ident item \<in> set (dedupe_loop t sc d [] (pre @ item # post)) \<longleftrightarrow>
      keeps t sc d (dedupe_loop t sc d [] pre) item)"
proof -
  define E where "E = dedupe_loop t sc d [] pre"
  define E' where "E' = (if keeps t sc d E item then E @ [ident item] else E)"
  define A where "A = ident ` set pre"
  define B where "B = ident ` set post"
  define i where "i = ident item"
  obtain ks where ks: "dedupe_loop t sc d E' post = E' @ ks" "set ks \<subseteq> B"
    unfolding B_def using dedupe_loop_prefix [of t sc d E' post] by blast
  have E: "set E \<subseteq> A"
    using dedupe_loop_prefix [of t sc d "[]" pre] by (auto simp: E_def A_def)
  have "dedupe_loop t sc d [] (pre @ item # post) = dedupe_loop t sc d E (item # post)"
    unfolding E_def by (rule dedupe_loop_append)
  also have "\<dots> = dedupe_loop t sc d E' post"
    unfolding E'_def by (rule dedupe_loop.simps(2))
  finally have K: "dedupe_loop t sc d [] (pre @ item # post) = E' @ ks"
    using ks(1) by simp
  have d1: "i \<notin> A" "i \<notin> B" and d2: "A \<inter> B = {}"
    using assms by (auto simp: A_def B_def i_def)
  have S: "set (E' @ ks) = (if keeps t sc d E item then insert i (set E \<union> set ks) else set E \<union> set ks)"
    by (simp add: E'_def i_def)
  have "set E = set (E' @ ks) \<inter> A"
  proof (cases "keeps t sc d E item")
    case True
    show ?thesis unfolding S using True E ks(2) d1 d2 by auto
  next
    case False
    show ?thesis unfolding S using False E ks(2) d1 d2 by auto
  qed
  moreover have "i \<in> set (E' @ ks) \<longleftrightarrow> keeps t sc d E item"
  proof (cases "keeps t sc d E item")
    case True
    show ?thesis unfolding S using True by simp
  next
    case False
    show ?thesis unfolding S using False E ks(2) d1 by auto
  qed
  ultimately show ?thesis
    unfolding K [symmetric] E_def A_def i_def by simp
qed

lemma loop_filter:
  "distinct (map ident xs) \<Longrightarrow> set ext \<inter> ident ` set xs = {} \<Longrightarrow>
   dedupe_loop t sc d ext xs =
     ext @ map ident (filter (\<lambda>a. ident a \<in> set (dedupe_loop t sc d ext xs)) xs)"
proof (induction xs arbitrary: ext)
  case Nil
  then show ?case by simp
next
  case (Cons x xs)
  let ?ext = "if keeps t sc d ext x then ext @ [ident x] else ext"
  let ?K = "dedupe_loop t sc d ?ext xs"
  have K: "dedupe_loop t sc d ext (x # xs) = ?K" by simp
  have disj: "set ?ext \<inter> ident ` set xs = {}"
    using Cons.prems by auto
  have ih: "?K = ?ext @ map ident (filter (\<lambda>a. ident a \<in> set ?K) xs)"
    using Cons.prems(1) disj by (intro Cons.IH) simp
  obtain ks where ks: "?K = ?ext @ ks" "set ks \<subseteq> ident ` set xs"
    using dedupe_loop_prefix [of t sc d ?ext xs] by blast
  have x: "ident x \<notin> ident ` set xs" "ident x \<notin> set ext"
    using Cons.prems by auto
  show ?case
  proof (cases "keeps t sc d ext x")
    case True
    then have "?K = ext @ ident x # ks"
      using ks(1) by simp
    then have "ident x \<in> set ?K"
      by simp
    then show ?thesis
      unfolding K using ih True by simp
  next
    case False
    then have "ident x \<notin> set ?K"
      using ks x by auto
    then show ?thesis
      unfolding K using ih False by simp
  qed
qed

lemma extractor_ids_filter:
  assumes "distinct (map ident albums)"
  shows "extractor_ids albums t sc =
    map ident (filter (\<lambda>a. ident a \<in> set (extractor_ids albums t sc)) albums)"
  unfolding extractor_ids_def
  using loop_filter [OF assms, of "[]" t sc] by simp

lemma extractor_ids_distinct:
  assumes "distinct (map ident albums)"
  shows "distinct (extractor_ids albums t sc)"
proof -
  have "distinct (map ident (filter (\<lambda>a. ident a \<in> set (extractor_ids albums t sc)) albums))"
    using assms by (rule distinct_map_filter)
  then show ?thesis
    using extractor_ids_filter [OF assms, of t sc] by simp
qed

lemma names_dict_distinct:
  "distinct (map ident albums) \<Longrightarrow>
   dict_of (map (\<lambda>album. (ident album, name album)) albums) = map (\<lambda>album. (ident album, name album)) albums"
  by (rule dict_of_distinct) (simp add: o_def)

lemma filtered_ids_distinct:
  "distinct (map album_id (filtered_album_matches t sc (dict_of kvs) item))"
  unfolding filtered_ids using dict_of_distinct_keys [of kvs] by (rule distinct_map_filter)

lemma filtered_ids_member:
  assumes "distinct (map ident albums)" "x \<in> set albums"
  shows "ident x \<in> set (map album_id (filtered_album_matches t sc
      (dict_of (map (\<lambda>album. (ident album, name album)) albums)) item))
    \<longleftrightarrow> t < sc (name item) (name x)"
proof -
  have "ident y = ident x \<Longrightarrow> y = x" if "y \<in> set albums" for y
    using assms that by (meson distinct_map inj_onD)
  then show ?thesis
    unfolding filtered_ids names_dict_distinct [OF assms(1)] using assms(2)
    by (auto simp: image_iff)
qed

lemma filtered_explicit:
  "filtered_album_matches t sc d item =
     map (\<lambda>(k, n). \<lparr>album_name = n, score = sc (name item) n, album_id = k\<rparr>)
       (filter (\<lambda>(k, n). t < sc (name item) n) d)"
  by (induction d) (auto simp: filtered_album_matches_def album_matches_def process_extract_def)

lemma filtered_ids_albums:
  assumes "distinct (map ident albums)"
  shows "map album_id (filtered_album_matches t sc
      (dict_of (map (\<lambda>album. (ident album, name album)) albums)) item) =
    map ident (filter (\<lambda>x. t < sc (name item) (name x)) albums)"
  unfolding filtered_ids names_dict_distinct [OF assms]
  by (simp add: filter_map o_def)

lemma keep_condition_scores:
  assumes "map album_id F = map ident (filter P albums)"
  shows "(length F = 1 \<or> (\<forall>m \<in> set F. album_id m \<notin> set E)) \<longleftrightarrow>
    (length (filter P albums) = 1 \<or> (\<forall>x \<in> set albums. P x \<longrightarrow> ident x \<notin> set E))"
proof -
  have "length F = length (filter P albums)"
    using assms by (metis length_map)
  moreover have "set (map album_id F) = set (map ident (filter P albums))"
    using assms by simp
  then have "album_id ` set F = ident ` {x \<in> set albums. P x}"
    by simp
  then have "(\<forall>m \<in> set F. album_id m \<notin> set E) \<longleftrightarrow> (\<forall>x \<in> set albums. P x \<longrightarrow> ident x \<notin> set E)"
    by (auto simp: image_iff set_eq_iff) metis+
  ultimately show ?thesis by simp
qed

lemma two_ids_not_single:
  assumes "distinct (map album_id F)" "a \<in> set (map album_id F)" "b \<in> set (map album_id F)" "a \<noteq> b"
  shows "length F \<noteq> 1"
proof
  assume "length F = 1"
  then obtain m where "F = [m]"
    by (cases F) auto
  then show False using assms by auto
qed

lemma later_duplicate_dropped:
  assumes d: "distinct (map ident (pre @ y # post))"
    and x: "x \<in> set pre" "ident x \<in> set (dedupe_loop t sc d [] (pre @ y # post))"
    and m: "ident x \<in> set (map album_id (filtered_album_matches t sc d y))"
    and s: "length (filtered_album_matches t sc d y) \<noteq> 1"
  shows "ident y \<notin> set (dedupe_loop t sc d [] (pre @ y # post))"
proof -
  have "ident x \<in> set (dedupe_loop t sc d [] pre)"
    using loop_split [OF d, of t sc d] x by auto
  then have "\<not> keeps t sc d (dedupe_loop t sc d [] pre) y"
    using m s by (auto simp: keeps_iff)
  then show ?thesis
    using loop_split [OF d, of t sc d] by simp
qed

lemma two_elems_split:
  assumes "a \<in> set xs" "b \<in> set xs" "a \<noteq> b"
  shows "(\<exists>pre mid post. xs = pre @ a # mid @ b # post) \<or>
         (\<exists>pre mid post. xs = pre @ b # mid @ a # post)"
proof -
  obtain p q where pq: "xs = p @ a # q"
    using assms(1) by (meson split_list)
  then have "b \<in> set p \<or> b \<in> set q"
    using assms(2,3) by auto
  then show ?thesis
  proof
    assume "b \<in> set p"
    then obtain p1 p2 where "p = p1 @ b # p2"
      by (meson split_list)
    then have "xs = p1 @ b # p2 @ a # q"
      using pq by simp
    then show ?thesis by blast
  next
    assume "b \<in> set q"
    then obtain q1 q2 where "q = q1 @ b # q2"
      by (meson split_list)
    then have "xs = p @ a # q1 @ b # q2"
      using pq by simp
    then show ?thesis by blast
  qed
qed

lemma kept_later_no_match:
  assumes dist: "distinct (map ident albums)"
    and alb: "albums = pre @ x # mid @ y # post"
    and self: "t < sc (name y) (name x) \<Longrightarrow> t < sc (name y) (name y)"
    and kx: "ident x \<in> set (extractor_ids albums t sc)"
    and ky: "ident y \<in> set (extractor_ids albums t sc)"
  shows "sc (name y) (name x) \<le> t"
proof (rule ccontr)
  let ?d = "dict_of (map (\<lambda>album. (ident album, name album)) albums)"
  assume "\<not> sc (name y) (name x) \<le> t"
  then have m: "t < sc (name y) (name x)" by simp
  have alb': "albums = (pre @ x # mid) @ y # post"
    using alb by simp
  have dist': "distinct (map ident ((pre @ x # mid) @ y # post))"
    using dist alb by simp
  have K: "extractor_ids albums t sc = dedupe_loop t sc ?d [] ((pre @ x # mid) @ y # post)"
    unfolding extractor_ids_def using alb by simp
  have xin: "x \<in> set albums" and yin: "y \<in> set albums"
    using alb by simp_all
  have in1: "ident x \<in> set (map album_id (filtered_album_matches t sc ?d y))"
    using filtered_ids_member [OF dist xin, of t sc y] m by simp
  have in2: "ident y \<in> set (map album_id (filtered_album_matches t sc ?d y))"
    using filtered_ids_member [OF dist yin, of t sc y] self [OF m] by simp
  have ne: "ident x \<noteq> ident y"
    using dist' by auto
  have two: "length (filtered_album_matches t sc ?d y) \<noteq> 1"
    using filtered_ids_distinct in1 in2 ne by (rule two_ids_not_single)
  have "ident y \<notin> set (dedupe_loop t sc ?d [] ((pre @ x # mid) @ y # post))"
  proof (rule later_duplicate_dropped [OF dist' _ _ in1 two])
    show "x \<in> set (pre @ x # mid)" by simp
    show "ident x \<in> set (dedupe_loop t sc ?d [] ((pre @ x # mid) @ y # post))"
      using kx unfolding K .
  qed
  then show False
    using ky unfolding K by simp
qed

lemma kept_pairwise_no_match:
  assumes dist: "distinct (map ident albums)"
    and sym: "\<And>a b. a \<in> set albums \<Longrightarrow> b \<in> set albums \<Longrightarrow> sc (name a) (name b) = sc (name b) (name a)"
    and self: "\<And>a b. a \<in> set albums \<Longrightarrow> b \<in> set albums \<Longrightarrow> t < sc (name a) (name b) \<Longrightarrow>
        t < sc (name a) (name a)"
    and a: "a \<in> set albums" "ident a \<in> set (extractor_ids albums t sc)"
    and b: "b \<in> set albums" "ident b \<in> set (extractor_ids albums t sc)"
    and ne: "a \<noteq> b"
  shows "sc (name a) (name b) \<le> t"
  using two_elems_split [OF a(1) b(1) ne]
proof (elim disjE exE)
  fix pre mid post
  assume alb: "albums = pre @ a # mid @ b # post"
  have "sc (name b) (name a) \<le> t"
    using dist alb self [OF b(1) a(1)] a(2) b(2) by (rule kept_later_no_match)
  then show ?thesis
    using sym [OF a(1) b(1)] by simp
next
  fix pre mid post
  assume alb: "albums = pre @ b # mid @ a # post"
  show ?thesis
    using dist alb self [OF a(1) b(1)] b(2) a(2) by (rule kept_later_no_match)
qed

section \<open>The result of the engine\<close>

lemma kept_records:
  "set ext \<subseteq> ident ` set albums \<Longrightarrow>
   \<exists>kept. map_result (dict_get (dict_of (map (\<lambda>album. (ident album, album)) albums))) ext = Inr kept
     \<and> map ident kept = ext \<and> set kept \<subseteq> set albums"
proof (induction ext)
  case Nil
  then show ?case by simp
next
  case (Cons k ext)
  obtain kept where kept:
    "map_result (dict_get (dict_of (map (\<lambda>album. (ident album, album)) albums))) ext = Inr kept"
    "map ident kept = ext" "set kept \<subseteq> set albums"
    using Cons by auto
  obtain a where a: "a \<in> set albums" "ident a = k"
    "dict_get (dict_of (map (\<lambda>album. (ident album, album)) albums)) k = Inr a"
    using dict_get_album [of k albums] Cons.prems by auto
  show ?case
    using kept a by (intro exI [of _ "a # kept"]) simp
qed

lemma dedupe_same_length:
  "length (extractor_ids albums t sc) = length albums \<Longrightarrow>
   deduplicate_by_name_and_add_popularity albums t sc = Inr albums"
  by (simp add: deduplicate_by_name_and_add_popularity_def Let_def)

lemma dedupe_other_length:
  assumes "length (extractor_ids albums t sc) \<noteq> length albums"
  shows "\<exists>kept. map ident kept = extractor_ids albums t sc \<and> set kept \<subseteq> set albums
     \<and> map_result (dict_get (dict_of (map (\<lambda>album. (ident album, album)) albums)))
          (extractor_ids albums t sc) = Inr kept
     \<and> deduplicate_by_name_and_add_popularity albums t sc = sorted_reverse popularity_key kept"
proof -
  obtain kept where kept:
    "map_result (dict_get (dict_of (map (\<lambda>album. (ident album, album)) albums)))
       (extractor_ids albums t sc) = Inr kept"
    "map ident kept = extractor_ids albums t sc" "set kept \<subseteq> set albums"
    using kept_records [OF extractor_ids_subset [of albums t sc]] by blast
  have "deduplicate_by_name_and_add_popularity albums t sc = sorted_reverse popularity_key kept"
    using assms kept(1) by (simp add: deduplicate_by_name_and_add_popularity_def Let_def)
  then show ?thesis using kept by blast
qed

lemma dedupe_Inr:
  assumes "deduplicate_by_name_and_add_popularity albums t sc = Inr out"
  shows "out = albums \<and> length (extractor_ids albums t sc) = length albums \<or>
    length (extractor_ids albums t sc) \<noteq> length albums \<and>
    (\<exists>kept. map ident kept = extractor_ids albums t sc \<and> set kept \<subseteq> set albums
       \<and> map_result (dict_get (dict_of (map (\<lambda>album. (ident album, album)) albums)))
          (extractor_ids albums t sc) = Inr kept
       \<and> sorted_reverse popularity_key kept = Inr out)"
proof (cases "length (extractor_ids albums t sc) = length albums")
  case True
  then show ?thesis using assms dedupe_same_length [OF True] by simp
next
  case False
  then show ?thesis using assms dedupe_other_length [OF False] by auto
qed

lemma dedupe_Inl:
  assumes "deduplicate_by_name_and_add_popularity albums t sc = Inl e"
  shows "e = KeyError \<and> (\<exists>a \<in> set albums. popularity a = None)"
proof (cases "length (extractor_ids albums t sc) = length albums")
  case True
  then show ?thesis using assms dedupe_same_length [OF True] by simp
next
  case False
  then obtain kept where kept: "set kept \<subseteq> set albums"
    "sorted_reverse popularity_key kept = Inl e"
    using assms dedupe_other_length [OF False] by auto
  then show ?thesis
    using sorted_reverse_Inl [OF kept(2)] by (auto simp: popularity_key_Inl)
qed

lemma dedupe_total:
  assumes "\<And>a. a \<in> set albums \<Longrightarrow> popularity a \<noteq> None"
  shows "\<exists>out. deduplicate_by_name_and_add_popularity albums t sc = Inr out"
proof (cases "deduplicate_by_name_and_add_popularity albums t sc")
  case (Inl e)
  then show ?thesis using dedupe_Inl [OF Inl] assms by auto
next
  case (Inr out)
  then show ?thesis by simp
qed

lemma kept_is_filter:
  assumes "distinct (map ident albums)"
    and "map_result (dict_get (dict_of (map (\<lambda>album. (ident album, album)) albums)))
          (extractor_ids albums t sc) = Inr kept"
  shows "kept = filter (\<lambda>a. ident a \<in> set (extractor_ids albums t sc)) albums"
proof -
  let ?D = "dict_of (map (\<lambda>album. (ident album, album)) albums)"
  let ?f = "filter (\<lambda>a. ident a \<in> set (extractor_ids albums t sc)) albums"
  have "map (dict_get ?D) (map ident ?f) = map Inr ?f"
    using dict_get_album_distinct [OF assms(1)] by simp
  then have "map_result (dict_get ?D) (map ident ?f) = Inr ?f"
    by (rule map_result_InrI)
  then have "map_result (dict_get ?D) (extractor_ids albums t sc) = Inr ?f"
    using extractor_ids_filter [OF assms(1), of t sc] by simp
  then show ?thesis using assms(2) by simp
qed

lemmas engine_defs =
  deduplicate_by_name_and_add_popularity_def extractor_ids_def dict_of_def dict_get_def
  keeps_def filtered_album_matches_def album_matches_def process_extract_def
  sorted_reverse_def popularity_key_def track_def Let_def

section \<open>Properties of the engine\<close>

text \<open>
  Claim C1. Whenever the engine returns a list, every record of it is a record of the
  input, so its identifiers are identifiers of the input, and it is no longer than the
  input. The engine does return a list when every input record carries a popularity; the
  only error it can raise is \<open>KeyError\<close>, from sorting a record that has none
  (\<open>dedupe_Inl\<close>).
\<close>

theorem dedupe_subset:
  "(\<forall>out. deduplicate_by_name_and_add_popularity albums threshold scorer = Inr out \<longrightarrow>
      set out \<subseteq> set albums \<and> set (map ident out) \<subseteq> set (map ident albums)
      \<and> length out \<le> length albums)
   \<and> ((\<forall>a \<in> set albums. popularity a \<noteq> None) \<longrightarrow>
      (\<exists>out. deduplicate_by_name_and_add_popularity albums threshold scorer = Inr out))"
proof (intro conjI allI impI)
  fix out
  assume run: "deduplicate_by_name_and_add_popularity albums threshold scorer = Inr out"
  have "set out \<subseteq> set albums \<and> length out \<le> length albums"
    using dedupe_Inr [OF run]
  proof (elim disjE conjE exE)
    assume "out = albums"
    then show ?thesis by simp
  next
    fix kept
    assume kept: "map ident kept = extractor_ids albums threshold scorer" "set kept \<subseteq> set albums"
      "sorted_reverse popularity_key kept = Inr out"
    have m: "mset out = mset kept"
      using sorted_reverse_Inr(1) [OF kept(3)] .
    have "length out = length (extractor_ids albums threshold scorer)"
      using mset_eq_length [OF m] kept(1) by (metis length_map)
    moreover have "set out = set kept"
      using mset_eq_setD [OF m] .
    ultimately show ?thesis
      using kept(2) extractor_ids_length [of albums threshold scorer] by simp
  qed
  then show "set out \<subseteq> set albums" "set (map ident out) \<subseteq> set (map ident albums)"
    "length out \<le> length albums"
    by auto
next
  assume "\<forall>a \<in> set albums. popularity a \<noteq> None"
  then show "\<exists>out. deduplicate_by_name_and_add_popularity albums threshold scorer = Inr out"
    by (intro dedupe_total) simp
qed

theorem dedupe_subset_witness:
  "deduplicate_by_name_and_add_popularity
     [track ''a'' ''Hits'' 80, track ''b'' ''Hits'' 60, track ''c'' ''Live'' 70] 99 exact_scorer =
     Inr [track ''a'' ''Hits'' 80, track ''c'' ''Live'' 70]
   \<and> set (map ident [track ''a'' ''Hits'' 80, track ''c'' ''Live'' 70])
       \<subseteq> set (map ident [track ''a'' ''Hits'' 80, track ''b'' ''Hits'' 60, track ''c'' ''Live'' 70])
   \<and> length [track ''a'' ''Hits'' 80, track ''c'' ''Live'' 70]
       \<le> length [track ''a'' ''Hits'' 80, track ''b'' ''Hits'' 60, track ''c'' ''Live'' 70]"
proof -
  let ?albums = "[track ''a'' ''Hits'' 80, track ''b'' ''Hits'' 60, track ''c'' ''Live'' 70]"
  let ?out = "[track ''a'' ''Hits'' 80, track ''c'' ''Live'' 70]"
  have run: "deduplicate_by_name_and_add_popularity ?albums 99 exact_scorer = Inr ?out"
    by (simp add: engine_defs exact_scorer_def)
  have "set (map ident ?out) \<subseteq> set (map ident ?albums) \<and> length ?out \<le> length ?albums"
    by (rule dedupe_subset [THEN conjunct1, THEN spec, THEN mp, OF run, THEN conjunct2])
  then show ?thesis
    by (rule conjI [OF run])
qed

text \<open>
  Claim C2, as stated, fails in its consequence. Matching is not transitive: with
  \<open>overlap_scorer\<close>, \<open>''Hits Live''\<close> matches both \<open>''Hits''\<close> and \<open>''Live''\<close>, which do not match
  each other. On the input \<open>Hits, Hits Live, Live\<close> the record \<open>Hits Live\<close> is dropped as a
  duplicate of \<open>Hits\<close>; when \<open>Live\<close> is examined its only matches are itself and the dropped
  \<open>Hits Live\<close>, so it is kept. Of the near-duplicates \<open>Hits Live\<close> and \<open>Live\<close> the first one
  met is dropped and the later one kept.
\<close>

theorem keep_rule_counterexample:
  "extractor_ids [track ''z'' ''Hits'' 3, track ''a'' ''Hits Live'' 2, track ''b'' ''Live'' 1]
      99 overlap_scorer = [''z'', ''b'']
   \<and> deduplicate_by_name_and_add_popularity
        [track ''z'' ''Hits'' 3, track ''a'' ''Hits Live'' 2, track ''b'' ''Live'' 1] 99 overlap_scorer =
      Inr [track ''z'' ''Hits'' 3, track ''b'' ''Live'' 1]
   \<and> 99 < overlap_scorer ''Hits Live'' ''Live'' \<and> 99 < overlap_scorer ''Live'' ''Hits Live''
   \<and> 99 < overlap_scorer ''Hits Live'' ''Hits Live'' \<and> 99 < overlap_scorer ''Live'' ''Live''"
  by (simp add: engine_defs overlap_scorer_def)

text \<open>
  Claim C2, amended. Let the input be \<open>pre @ item # post\<close>, let \<open>filtered\<close> be the surviving
  matches of \<open>item\<close> and \<open>earlier\<close> the identifiers kept while \<open>pre\<close> was processed.
  \<^item> \<open>filtered\<close> holds one match for each candidate of the mapping whose name scores
    strictly above the threshold against the name of \<open>item\<close>, and no other.
  \<^item> Processing \<open>item\<close> appends its identifier exactly if \<open>filtered\<close> has one element or no
    identifier of \<open>filtered\<close> is in \<open>earlier\<close>; what has been appended stays: the final list of
    kept identifiers extends the list reached after \<open>item\<close>.

  Where the identifiers of the input are pairwise distinct (a record set of the
  specification), so that an identifier stands for one record:
  \<^item> the identifiers of \<open>filtered\<close> are those of the input records whose names score strictly
    above the threshold against the name of \<open>item\<close>, in input order;
  \<^item> \<open>earlier\<close> is the part of the final kept identifiers that comes from \<open>pre\<close>, and the
    identifier of \<open>item\<close> is among the final kept identifiers exactly if one input record
    scores strictly above the threshold, or none of those that do has its identifier in
    \<open>earlier\<close>;
  \<^item> where the name of \<open>item\<close> scores above the threshold against itself, \<open>filtered\<close> has one
    element exactly if it holds the self-match only;
  \<^item> first seen wins within a closed cluster: for a set \<open>C\<close> of identifiers such that every
    record of \<open>C\<close> scores strictly above the threshold against exactly the records of \<open>C\<close>,
    and of which \<open>item\<close> is the first record in the input, \<open>item\<close> is kept and every later
    record of \<open>C\<close> is dropped.
\<close>

theorem keep_rule:
  assumes "albums = pre @ item # post"
  shows "let d = dict_of (map (\<lambda>album. (ident album, name album)) albums);
             filtered = filtered_album_matches threshold scorer d item;
             earlier = dedupe_loop threshold scorer d [] pre;
             kept = extractor_ids albums threshold scorer
         in filtered =
              map (\<lambda>(k, n). \<lparr>album_name = n, score = scorer (name item) n, album_id = k\<rparr>)
                (filter (\<lambda>(k, n). threshold < scorer (name item) n) d)
          \<and> dedupe_loop threshold scorer d [] (pre @ [item]) =
              (if length filtered = 1 \<or> (\<forall>m \<in> set filtered. album_id m \<notin> set earlier)
               then earlier @ [ident item] else earlier)
          \<and> (\<exists>later. kept = dedupe_loop threshold scorer d [] (pre @ [item]) @ later)
          \<and> (distinct (map ident albums) \<longrightarrow>
               map album_id filtered =
                 map ident (filter (\<lambda>x. threshold < scorer (name item) (name x)) albums)
             \<and> set earlier = set kept \<inter> ident ` set pre
             \<and> (ident item \<in> set kept \<longleftrightarrow>
                  length (filter (\<lambda>x. threshold < scorer (name item) (name x)) albums) = 1 \<or>
                  (\<forall>x \<in> set albums. threshold < scorer (name item) (name x) \<longrightarrow>
                     ident x \<notin> set earlier))
             \<and> (threshold < scorer (name item) (name item) \<longrightarrow>
                  (length filtered = 1 \<longleftrightarrow> map album_id filtered = [ident item]))
             \<and> (\<forall>C. (\<forall>x \<in> set albums. \<forall>y \<in> set albums. ident x \<in> C \<longrightarrow>
                         (threshold < scorer (name x) (name y) \<longleftrightarrow> ident y \<in> C))
                      \<and> ident item \<in> C \<and> ident ` set pre \<inter> C = {} \<longrightarrow>
                    ident item \<in> set kept \<and>
                    (\<forall>y \<in> set post. ident y \<in> C \<longrightarrow> ident y \<notin> set kept)))"
proof -
  let ?d = "dict_of (map (\<lambda>album. (ident album, name album)) albums)"
  let ?filtered = "filtered_album_matches threshold scorer ?d item"
  let ?earlier = "dedupe_loop threshold scorer ?d [] pre"
  let ?kept = "extractor_ids albums threshold scorer"
  let ?P = "\<lambda>x. threshold < scorer (name item) (name x)"
  let ?rule = "length ?filtered = 1 \<or> (\<forall>m \<in> set ?filtered. album_id m \<notin> set ?earlier)"
  let ?score_rule = "length (filter ?P albums) = 1 \<or>
      (\<forall>x \<in> set albums. ?P x \<longrightarrow> ident x \<notin> set ?earlier)"
  have pin: "?filtered =
      map (\<lambda>(k, n). \<lparr>album_name = n, score = scorer (name item) n, album_id = k\<rparr>)
        (filter (\<lambda>(k, n). threshold < scorer (name item) n) ?d)"
    by (rule filtered_explicit)
  have kept_loop: "?kept = dedupe_loop threshold scorer ?d [] (pre @ item # post)"
    by (simp add: extractor_ids_def assms)
  have rule: "keeps threshold scorer ?d ?earlier item \<longleftrightarrow> ?rule"
    by (rule keeps_iff)
  have "dedupe_loop threshold scorer ?d [] (pre @ [item]) =
      (if keeps threshold scorer ?d ?earlier item then ?earlier @ [ident item] else ?earlier)"
    by (simp add: dedupe_loop_append)
  then have step: "dedupe_loop threshold scorer ?d [] (pre @ [item]) =
      (if ?rule then ?earlier @ [ident item] else ?earlier)"
    by (simp only: rule)
  have "?kept = dedupe_loop threshold scorer ?d (dedupe_loop threshold scorer ?d [] (pre @ [item])) post"
    unfolding kept_loop dedupe_loop_append [symmetric] by simp
  then have stays: "\<exists>later. ?kept = dedupe_loop threshold scorer ?d [] (pre @ [item]) @ later"
    using dedupe_loop_prefix [of threshold scorer ?d "dedupe_loop threshold scorer ?d [] (pre @ [item])" post]
    by auto
  have rest: "distinct (map ident albums) \<longrightarrow>
      map album_id ?filtered = map ident (filter ?P albums)
    \<and> set ?earlier = set ?kept \<inter> ident ` set pre
    \<and> (ident item \<in> set ?kept \<longleftrightarrow> ?score_rule)
    \<and> (threshold < scorer (name item) (name item) \<longrightarrow>
         (length ?filtered = 1 \<longleftrightarrow> map album_id ?filtered = [ident item]))
    \<and> (\<forall>C. (\<forall>x \<in> set albums. \<forall>y \<in> set albums. ident x \<in> C \<longrightarrow>
              (threshold < scorer (name x) (name y) \<longleftrightarrow> ident y \<in> C))
           \<and> ident item \<in> C \<and> ident ` set pre \<inter> C = {} \<longrightarrow>
         ident item \<in> set ?kept \<and> (\<forall>y \<in> set post. ident y \<in> C \<longrightarrow> ident y \<notin> set ?kept))"
  proof (rule impI)
    assume distinct: "distinct (map ident albums)"
    have dist: "distinct (map ident (pre @ item # post))"
      using distinct assms by simp
    have ids: "map album_id ?filtered = map ident (filter ?P albums)"
      using distinct by (rule filtered_ids_albums)
    have rules: "?rule \<longleftrightarrow> ?score_rule"
      using ids by (rule keep_condition_scores)
    have before: "set ?earlier = set ?kept \<inter> ident ` set pre"
      unfolding kept_loop by (rule conjunct1 [OF loop_split [OF dist]])
    have "ident item \<in> set ?kept \<longleftrightarrow> keeps threshold scorer ?d ?earlier item"
      unfolding kept_loop by (rule conjunct2 [OF loop_split [OF dist]])
    then have "ident item \<in> set ?kept \<longleftrightarrow> ?rule"
      by (simp only: rule)
    then have final: "ident item \<in> set ?kept \<longleftrightarrow> ?score_rule"
      by (simp only: rules)
    have item_in: "item \<in> set albums"
      using assms by simp
    have self: "threshold < scorer (name item) (name item) \<longrightarrow>
        (length ?filtered = 1 \<longleftrightarrow> map album_id ?filtered = [ident item])"
    proof (intro impI iffI)
      assume self_match: "threshold < scorer (name item) (name item)"
      assume "length ?filtered = 1"
      then obtain m where m: "?filtered = [m]"
        by (cases ?filtered) simp_all
      have "ident item \<in> set (map album_id ?filtered)"
        using filtered_ids_member [OF distinct item_in, of threshold scorer item] self_match by simp
      then show "map album_id ?filtered = [ident item]"
        using m by simp
    next
      assume "map album_id ?filtered = [ident item]"
      then have "length (map album_id ?filtered) = 1" by simp
      then show "length ?filtered = 1" by simp
    qed
    have cluster: "\<forall>C. (\<forall>x \<in> set albums. \<forall>y \<in> set albums. ident x \<in> C \<longrightarrow>
                (threshold < scorer (name x) (name y) \<longleftrightarrow> ident y \<in> C))
             \<and> ident item \<in> C \<and> ident ` set pre \<inter> C = {} \<longrightarrow>
           ident item \<in> set ?kept \<and> (\<forall>y \<in> set post. ident y \<in> C \<longrightarrow> ident y \<notin> set ?kept)"
    proof (intro allI impI, elim conjE)
      fix C
      assume all: "\<forall>x \<in> set albums. \<forall>y \<in> set albums. ident x \<in> C \<longrightarrow>
                (threshold < scorer (name x) (name y) \<longleftrightarrow> ident y \<in> C)"
        and item: "ident item \<in> C" and pre: "ident ` set pre \<inter> C = {}"
      have match: "threshold < scorer (name x) (name y) \<longleftrightarrow> ident y \<in> C"
        if "x \<in> set albums" "y \<in> set albums" "ident x \<in> C" for x y
        using all that by simp
      have disjoint: "set ?earlier \<inter> C = {}"
        using before pre by auto
      have "ident x \<notin> set ?earlier" if "x \<in> set albums" "?P x" for x
      proof -
        have "ident x \<in> C"
          using match [OF item_in that(1) item] that(2) by simp
        then show ?thesis
          using disjoint by auto
      qed
      then have first: "ident item \<in> set ?kept"
        using final by simp
      have "ident y \<notin> set ?kept" if y: "y \<in> set post" "ident y \<in> C" for y
      proof -
        obtain mid post' where post: "post = mid @ y # post'"
          using y(1) by (meson split_list)
        have alb: "albums = (pre @ item # mid) @ y # post'"
          using assms post by simp
        have dist': "distinct (map ident ((pre @ item # mid) @ y # post'))"
          using distinct alb by simp
        have kept': "?kept = dedupe_loop threshold scorer ?d [] ((pre @ item # mid) @ y # post')"
          using kept_loop post by simp
        have y_in: "y \<in> set albums"
          using alb by simp
        have ne: "ident item \<noteq> ident y"
          using dist' by auto
        have "threshold < scorer (name y) (name item)"
          using match [OF y_in item_in y(2)] item by simp
        then have in1: "ident item \<in> set (map album_id (filtered_album_matches threshold scorer ?d y))"
          using filtered_ids_member [OF distinct item_in, of threshold scorer y] by simp
        have "threshold < scorer (name y) (name y)"
          using match [OF y_in y_in y(2)] y(2) by simp
        then have in2: "ident y \<in> set (map album_id (filtered_album_matches threshold scorer ?d y))"
          using filtered_ids_member [OF distinct y_in, of threshold scorer y] by simp
        have two: "length (filtered_album_matches threshold scorer ?d y) \<noteq> 1"
          using filtered_ids_distinct in1 in2 ne by (rule two_ids_not_single)
        have "ident y \<notin> set (dedupe_loop threshold scorer ?d [] ((pre @ item # mid) @ y # post'))"
        proof (rule later_duplicate_dropped [OF dist' _ _ in1 two])
          show "item \<in> set (pre @ item # mid)" by simp
          show "ident item \<in> set (dedupe_loop threshold scorer ?d [] ((pre @ item # mid) @ y # post'))"
            using first unfolding kept' .
        qed
        then show ?thesis unfolding kept' .
      qed
      then show "ident item \<in> set ?kept \<and> (\<forall>y \<in> set post. ident y \<in> C \<longrightarrow> ident y \<notin> set ?kept)"
        using first by simp
    qed
    show "map album_id ?filtered = map ident (filter ?P albums)
      \<and> set ?earlier = set ?kept \<inter> ident ` set pre
      \<and> (ident item \<in> set ?kept \<longleftrightarrow> ?score_rule)
      \<and> (threshold < scorer (name item) (name item) \<longrightarrow>
           (length ?filtered = 1 \<longleftrightarrow> map album_id ?filtered = [ident item]))
      \<and> (\<forall>C. (\<forall>x \<in> set albums. \<forall>y \<in> set albums. ident x \<in> C \<longrightarrow>
                (threshold < scorer (name x) (name y) \<longleftrightarrow> ident y \<in> C))
             \<and> ident item \<in> C \<and> ident ` set pre \<inter> C = {} \<longrightarrow>
           ident item \<in> set ?kept \<and> (\<forall>y \<in> set post. ident y \<in> C \<longrightarrow> ident y \<notin> set ?kept))"
      by (rule conjI [OF ids conjI [OF before conjI [OF final conjI [OF self cluster]]]])
  qed
  show ?thesis
    unfolding Let_def
    by (rule conjI [OF pin conjI [OF step conjI [OF stays rest]]])
qed

theorem keep_rule_witness:
  "ident (track ''a'' ''Hits'' 80) \<in> set (extractor_ids
     [track ''a'' ''Hits'' 80, track ''b'' ''Hits'' 60, track ''c'' ''Live'' 70] 99 exact_scorer)
   \<and> ident (track ''b'' ''Hits'' 60) \<notin> set (extractor_ids
     [track ''a'' ''Hits'' 80, track ''b'' ''Hits'' 60, track ''c'' ''Live'' 70] 99 exact_scorer)
   \<and> ident (track ''c'' ''Live'' 70) \<in> set (extractor_ids
     [track ''a'' ''Hits'' 80, track ''b'' ''Hits'' 60, track ''c'' ''Live'' 70] 99 exact_scorer)
   \<and> map album_id (filtered_album_matches 99 exact_scorer
       (dict_of (map (\<lambda>album. (ident album, name album))
          [track ''a'' ''Hits'' 80, track ''b'' ''Hits'' 60, track ''c'' ''Live'' 70]))
       (track ''c'' ''Live'' 70)) = [''c'']"
proof -
  let ?albums = "[track ''a'' ''Hits'' 80, track ''b'' ''Hits'' 60, track ''c'' ''Live'' 70]"
  let ?d = "dict_of (map (\<lambda>album. (ident album, name album)) ?albums)"
  let ?K = "extractor_ids ?albums 99 exact_scorer"
  have d: "distinct (map ident ?albums)"
    by (simp add: track_def)
  have s: "?albums = [] @ track ''a'' ''Hits'' 80 # [track ''b'' ''Hits'' 60, track ''c'' ''Live'' 70]"
    by simp
  have c: "(\<forall>x \<in> set ?albums. \<forall>y \<in> set ?albums. ident x \<in> {''a'', ''b''} \<longrightarrow>
        (99 < exact_scorer (name x) (name y) \<longleftrightarrow> ident y \<in> {''a'', ''b''}))
      \<and> ident (track ''a'' ''Hits'' 80) \<in> {''a'', ''b''} \<and> ident ` set [] \<inter> {''a'', ''b''} = {}"
    by (simp add: track_def exact_scorer_def)
  note rule = keep_rule [OF s, of 99 exact_scorer, unfolded Let_def]
  note cluster = rule [THEN conjunct2, THEN conjunct2, THEN conjunct2, THEN mp, OF d,
      THEN conjunct2, THEN conjunct2, THEN conjunct2, THEN conjunct2]
  have "ident (track ''a'' ''Hits'' 80) \<in> set ?K
      \<and> (\<forall>y \<in> set [track ''b'' ''Hits'' 60, track ''c'' ''Live'' 70].
            ident y \<in> {''a'', ''b''} \<longrightarrow> ident y \<notin> set ?K)"
    by (rule cluster [THEN spec, THEN mp, OF c])
  then have ab: "ident (track ''a'' ''Hits'' 80) \<in> set ?K \<and> ident (track ''b'' ''Hits'' 60) \<notin> set ?K"
    by (simp add: track_def)
  have s': "?albums = [track ''a'' ''Hits'' 80, track ''b'' ''Hits'' 60] @ track ''c'' ''Live'' 70 # []"
    by simp
  note last = keep_rule [OF s', of 99 exact_scorer, unfolded Let_def,
      THEN conjunct2, THEN conjunct2, THEN conjunct2, THEN mp, OF d]
  have one: "length (filter (\<lambda>x. 99 < exact_scorer (name (track ''c'' ''Live'' 70)) (name x)) ?albums) = 1"
    by (simp add: track_def exact_scorer_def)
  have kept_c: "ident (track ''c'' ''Live'' 70) \<in> set ?K"
    by (rule last [THEN conjunct2, THEN conjunct2, THEN conjunct1, THEN iffD2, OF disjI1, OF one])
  have "map album_id (filtered_album_matches 99 exact_scorer ?d (track ''c'' ''Live'' 70)) =
      map ident (filter (\<lambda>x. 99 < exact_scorer (name (track ''c'' ''Live'' 70)) (name x)) ?albums)"
    by (rule last [THEN conjunct1])
  then have ids_c: "map album_id (filtered_album_matches 99 exact_scorer ?d (track ''c'' ''Live'' 70)) = [''c'']"
    by (simp add: track_def exact_scorer_def)
  show ?thesis
    by (rule conjI [OF conjunct1 [OF ab] conjI [OF conjunct2 [OF ab] conjI [OF kept_c ids_c]]])
qed

text \<open>
  Claim C3. If the name of every record scores at most the threshold against the name of
  every record at another position, every record is kept and the engine returns the input
  list itself, in the order given and without sorting it (so also when a record has no
  popularity).
\<close>

theorem dedupe_identity:
  assumes "\<forall>i j. i < length albums \<and> j < length albums \<and> i \<noteq> j \<longrightarrow>
      scorer (name (albums ! i)) (name (albums ! j)) \<le> threshold"
  shows "deduplicate_by_name_and_add_popularity albums threshold scorer = Inr albums"
proof -
  have "extractor_ids albums threshold scorer = map ident albums"
    using assms by (intro no_duplicates_all_kept) blast
  then show ?thesis
    by (intro dedupe_same_length) simp
qed

theorem dedupe_identity_witness:
  "deduplicate_by_name_and_add_popularity [track ''a'' ''Hits'' 60, track ''b'' ''Live'' 80] 99 exact_scorer
     = Inr [track ''a'' ''Hits'' 60, track ''b'' ''Live'' 80]"
proof -
  let ?albums = "[track ''a'' ''Hits'' 60, track ''b'' ''Live'' 80]"
  have "\<forall>i j. i < length ?albums \<and> j < length ?albums \<and> i \<noteq> j \<longrightarrow>
      exact_scorer (name (?albums ! i)) (name (?albums ! j)) \<le> 99"
  proof (intro allI impI)
    fix i j :: nat
    assume "i < length ?albums \<and> j < length ?albums \<and> i \<noteq> j"
    then have "i = 0 \<and> j = 1 \<or> i = 1 \<and> j = 0"
      by (simp add: less_Suc_eq) arith
    then show "exact_scorer (name (?albums ! i)) (name (?albums ! j)) \<le> 99"
      by (auto simp: exact_scorer_def track_def)
  qed
  then show ?thesis
    by (rule dedupe_identity)
qed

text \<open>
  Claim C4. When the returned list and the input differ in length, the popularities of the
  returned list are non-increasing, and the sort is stable: the returned records of one
  popularity stand in the order in which their identifiers were kept. For an input whose
  identifiers are pairwise distinct (a record set of the specification) that is the order
  of the input: the returned records of popularity \<open>p\<close> are the input records of popularity
  \<open>p\<close> that were returned, in input order.
\<close>

theorem dedupe_sorted_stable:
  assumes "deduplicate_by_name_and_add_popularity albums threshold scorer = Inr out"
    and "length out \<noteq> length albums"
  shows "(\<exists>ps. map popularity out = map Some ps \<and> sorted_wrt (\<ge>) ps)
    \<and> (\<exists>kept. map ident kept = extractor_ids albums threshold scorer
          \<and> (\<forall>p. filter (\<lambda>a. popularity a = Some p) out = filter (\<lambda>a. popularity a = Some p) kept))
    \<and> (distinct (map ident albums) \<longrightarrow>
          (\<forall>p. filter (\<lambda>a. popularity a = Some p) out =
               filter (\<lambda>a. popularity a = Some p) (filter (\<lambda>a. a \<in> set out) albums)))"
proof -
  have "out \<noteq> albums" using assms(2) by auto
  then obtain kept where kept:
    "map_result (dict_get (dict_of (map (\<lambda>album. (ident album, album)) albums)))
          (extractor_ids albums threshold scorer) = Inr kept"
    "sorted_reverse popularity_key kept = Inr out"
    "map ident kept = extractor_ids albums threshold scorer"
    using dedupe_Inr [OF assms(1)] by auto
  have ties: "filter (\<lambda>a. popularity a = Some p) out = filter (\<lambda>a. popularity a = Some p) kept" for p
    using sorted_reverse_Inr(3) [OF kept(2), of p] by (simp add: popularity_key_Inr)
  have order: "\<exists>kept. map ident kept = extractor_ids albums threshold scorer
      \<and> (\<forall>p. filter (\<lambda>a. popularity a = Some p) out = filter (\<lambda>a. popularity a = Some p) kept)"
    using kept(3) ties by blast
  obtain ks where ks: "map popularity_key out = map Inr ks" "sorted_wrt (\<ge>) ks"
    using sorted_reverse_Inr(2) [OF kept(2)] by blast
  have "map popularity out = map Some ks"
  proof (rule nth_equalityI)
    show "length (map popularity out) = length (map Some ks)"
      using ks(1) by (metis length_map)
    fix i assume "i < length (map popularity out)"
    then have i: "i < length out" by simp
    then have "map popularity_key out ! i = map Inr ks ! i"
      using ks(1) by simp
    moreover have "i < length ks"
      using i ks(1) by (metis length_map)
    ultimately show "map popularity out ! i = map Some ks ! i"
      using i by (simp add: popularity_key_Inr)
  qed
  then have sorted: "\<exists>ps. map popularity out = map Some ps \<and> sorted_wrt (\<ge>) ps"
    using ks(2) by blast
  have stable: "filter (\<lambda>a. popularity a = Some p) out =
      filter (\<lambda>a. popularity a = Some p) (filter (\<lambda>a. a \<in> set out) albums)"
    if d: "distinct (map ident albums)" for p
  proof -
    have k: "kept = filter (\<lambda>a. ident a \<in> set (extractor_ids albums threshold scorer)) albums"
      using d kept(1) by (rule kept_is_filter)
    have "set out = set kept"
      using mset_eq_setD [OF sorted_reverse_Inr(1) [OF kept(2)]] .
    then have "a \<in> set out \<longleftrightarrow> ident a \<in> set (extractor_ids albums threshold scorer)"
      if "a \<in> set albums" for a
      using k that by simp
    then have "filter (\<lambda>a. a \<in> set out) albums =
        filter (\<lambda>a. ident a \<in> set (extractor_ids albums threshold scorer)) albums"
      by (intro filter_cong) simp_all
    then have "filter (\<lambda>a. a \<in> set out) albums = kept"
      using k by simp
    then show ?thesis
      using ties [of p] by simp
  qed
  have "distinct (map ident albums) \<longrightarrow>
      (\<forall>p. filter (\<lambda>a. popularity a = Some p) out =
           filter (\<lambda>a. popularity a = Some p) (filter (\<lambda>a. a \<in> set out) albums))"
    using stable by simp
  then show ?thesis
    by (rule conjI [OF sorted conjI [OF order]])
qed

theorem dedupe_sorted_stable_witness:
  "deduplicate_by_name_and_add_popularity
     [track ''a'' ''X'' 5, track ''b'' ''X'' 9, track ''c'' ''Y'' 5, track ''d'' ''Z'' 7] 99 exact_scorer =
     Inr [track ''d'' ''Z'' 7, track ''a'' ''X'' 5, track ''c'' ''Y'' 5]
   \<and> filter (\<lambda>a. popularity a = Some 5) [track ''d'' ''Z'' 7, track ''a'' ''X'' 5, track ''c'' ''Y'' 5] =
     filter (\<lambda>a. popularity a = Some 5)
       (filter (\<lambda>a. a \<in> set [track ''d'' ''Z'' 7, track ''a'' ''X'' 5, track ''c'' ''Y'' 5])
         [track ''a'' ''X'' 5, track ''b'' ''X'' 9, track ''c'' ''Y'' 5, track ''d'' ''Z'' 7])"
proof -
  let ?albums = "[track ''a'' ''X'' 5, track ''b'' ''X'' 9, track ''c'' ''Y'' 5, track ''d'' ''Z'' 7]"
  let ?out = "[track ''d'' ''Z'' 7, track ''a'' ''X'' 5, track ''c'' ''Y'' 5]"
  have run: "deduplicate_by_name_and_add_popularity ?albums 99 exact_scorer = Inr ?out"
    by (simp add: engine_defs exact_scorer_def)
  have len: "length ?out \<noteq> length ?albums"
    by simp
  have d: "distinct (map ident ?albums)"
    by (simp add: track_def)
  note stable = dedupe_sorted_stable [OF run len, THEN conjunct2, THEN conjunct2, THEN mp, OF d, THEN spec, of 5]
  show ?thesis
    by (rule conjI [OF run stable])
qed

text \<open>
  Claim C5, as stated, fails. With \<open>prefix_scorer\<close>, which is not symmetric, a second run
  on the output of the first drops a record: sorting has moved \<open>''Hits Live''\<close> before
  \<open>''Hits''\<close>, which matches it. The same happens with the symmetric \<open>uneven_scorer\<close>, where
  \<open>''Y''\<close> does not match itself, and with \<open>exact_scorer\<close> on an input in which two records
  share an identifier.
\<close>

theorem dedupe_idempotent_counterexample:
  "(deduplicate_by_name_and_add_popularity
      [track ''a'' ''Hits'' 1, track ''b'' ''Hit'' 2, track ''c'' ''Hits Live'' 3] 99 prefix_scorer =
      Inr [track ''c'' ''Hits Live'' 3, track ''a'' ''Hits'' 1]
    \<and> deduplicate_by_name_and_add_popularity
      [track ''c'' ''Hits Live'' 3, track ''a'' ''Hits'' 1] 99 prefix_scorer =
      Inr [track ''c'' ''Hits Live'' 3])
   \<and> (deduplicate_by_name_and_add_popularity
      [track ''x'' ''X'' 1, track ''y'' ''Y'' 2, track ''z'' ''Z'' 0] 99 uneven_scorer =
      Inr [track ''y'' ''Y'' 2, track ''x'' ''X'' 1]
    \<and> deduplicate_by_name_and_add_popularity
      [track ''y'' ''Y'' 2, track ''x'' ''X'' 1] 99 uneven_scorer =
      Inr [track ''y'' ''Y'' 2])
   \<and> (deduplicate_by_name_and_add_popularity
      [track ''q'' ''Y'' 3, track ''p'' ''X'' 2, track ''p'' ''Y'' 1] 99 exact_scorer =
      Inr [track ''q'' ''Y'' 3, track ''p'' ''Y'' 1]
    \<and> deduplicate_by_name_and_add_popularity
      [track ''q'' ''Y'' 3, track ''p'' ''Y'' 1] 99 exact_scorer =
      Inr [track ''q'' ''Y'' 3])"
  by (simp add: engine_defs prefix_scorer_def uneven_scorer_def exact_scorer_def)

text \<open>
  Claim C5, amended. Let the identifiers of the input be pairwise distinct, and let the
  scorer, on the names of the input, be symmetric and give a name a score above the
  threshold against itself whenever it gives it one against any name. Then the engine,
  applied to a list it has returned, returns that list unchanged.
\<close>

theorem dedupe_idempotent:
  assumes dist: "distinct (map ident albums)"
    and sym: "\<forall>a \<in> set albums. \<forall>b \<in> set albums. scorer (name a) (name b) = scorer (name b) (name a)"
    and self: "\<forall>a \<in> set albums. \<forall>b \<in> set albums.
        threshold < scorer (name a) (name b) \<longrightarrow> threshold < scorer (name a) (name a)"
    and run: "deduplicate_by_name_and_add_popularity albums threshold scorer = Inr out"
  shows "deduplicate_by_name_and_add_popularity out threshold scorer = Inr out"
  using dedupe_Inr [OF run]
proof (elim disjE conjE exE)
  assume "out = albums"
  then show ?thesis using run by simp
next
  fix kept
  assume kept: "map_result (dict_get (dict_of (map (\<lambda>album. (ident album, album)) albums)))
        (extractor_ids albums threshold scorer) = Inr kept"
    and sorted: "sorted_reverse popularity_key kept = Inr out"
  have k: "kept = filter (\<lambda>a. ident a \<in> set (extractor_ids albums threshold scorer)) albums"
    using dist kept by (rule kept_is_filter)
  have m: "mset out = mset kept"
    using sorted_reverse_Inr(1) [OF sorted] .
  have "distinct albums"
    using dist by (simp add: distinct_map)
  then have "distinct kept"
    unfolding k by simp
  then have dout: "distinct out"
    using m by (metis distinct_count_atmost_1 set_mset_mset)
  have sout: "set out = set kept"
    using mset_eq_setD [OF m] .
  have mem: "a \<in> set albums \<and> ident a \<in> set (extractor_ids albums threshold scorer)"
    if "a \<in> set out" for a
    using that sout k by simp
  have "scorer (name (out ! i)) (name (out ! j)) \<le> threshold"
    if ij: "i < length out" "j < length out" "i \<noteq> j" for i j
  proof -
    have a: "out ! i \<in> set albums" "ident (out ! i) \<in> set (extractor_ids albums threshold scorer)"
      using mem [of "out ! i"] ij(1) by simp_all
    have b: "out ! j \<in> set albums" "ident (out ! j) \<in> set (extractor_ids albums threshold scorer)"
      using mem [of "out ! j"] ij(2) by simp_all
    have ne: "out ! i \<noteq> out ! j"
      using dout ij by (simp add: nth_eq_iff_index_eq)
    show ?thesis
    proof (rule kept_pairwise_no_match [OF dist _ _ a b ne])
      show "scorer (name a) (name b) = scorer (name b) (name a)"
        if "a \<in> set albums" "b \<in> set albums" for a b
        using sym that by simp
      show "threshold < scorer (name a) (name a)"
        if "a \<in> set albums" "b \<in> set albums" "threshold < scorer (name a) (name b)" for a b
        using self that by blast
    qed
  qed
  then have "extractor_ids out threshold scorer = map ident out"
    by (rule no_duplicates_all_kept)
  then show ?thesis
    by (intro dedupe_same_length) simp
qed

theorem dedupe_idempotent_witness:
  "deduplicate_by_name_and_add_popularity [track ''a'' ''Hits'' 80, track ''c'' ''Live'' 70] 99 exact_scorer
     = Inr [track ''a'' ''Hits'' 80, track ''c'' ''Live'' 70]"
proof -
  let ?albums = "[track ''a'' ''Hits'' 80, track ''b'' ''Hits'' 60, track ''c'' ''Live'' 70]"
  have run: "deduplicate_by_name_and_add_popularity ?albums 99 exact_scorer =
      Inr [track ''a'' ''Hits'' 80, track ''c'' ''Live'' 70]"
    by (simp add: engine_defs exact_scorer_def)
  have d: "distinct (map ident ?albums)"
    by (simp add: track_def)
  have sym: "\<forall>a \<in> set ?albums. \<forall>b \<in> set ?albums.
      exact_scorer (name a) (name b) = exact_scorer (name b) (name a)"
    by (simp add: exact_scorer_def track_def)
  have self: "\<forall>a \<in> set ?albums. \<forall>b \<in> set ?albums.
      99 < exact_scorer (name a) (name b) \<longrightarrow> 99 < exact_scorer (name a) (name a)"
    by (simp add: exact_scorer_def track_def)
  show ?thesis
    using d sym self run by (rule dedupe_idempotent)
qed

text \<open>
  Claim C8. On the empty list the engine returns the empty list and raises nothing, for
  every threshold and scorer.
\<close>

theorem dedupe_empty: "deduplicate_by_name_and_add_popularity [] threshold scorer = Inr []"
  by (simp add: deduplicate_by_name_and_add_popularity_def extractor_ids_def)

text \<open>
  Claim C9, as stated, fails: the self-match survives the filter only if it scores
  strictly above the threshold. With a threshold of 100 a name that scores the maximum,
  100, against itself leaves no match at all.
\<close>

theorem single_record_kept_counterexample:
  "filtered_album_matches 100 exact_scorer (dict_of [(''a'', ''Hits'')]) (track ''a'' ''Hits'' 80) = []
   \<and> length (filtered_album_matches 100 exact_scorer (dict_of [(''a'', ''Hits'')])
        (track ''a'' ''Hits'' 80)) \<noteq> 1"
  by (simp add: engine_defs exact_scorer_def)

text \<open>
  Claim C9, amended. For a single record compared against a candidate mapping that holds
  only itself, the self-match is the only candidate: it survives the filter exactly when
  the record's name scores strictly above the threshold against itself, and no match
  survives otherwise. In both cases the record is kept, and the engine returns the
  one-record list unchanged.
\<close>

theorem single_record_kept:
  "filtered_album_matches threshold scorer (dict_of [(ident r, name r)]) r =
     (if threshold < scorer (name r) (name r)
      then [\<lparr>album_name = name r, score = scorer (name r) (name r), album_id = ident r\<rparr>]
      else [])
   \<and> keeps threshold scorer (dict_of [(ident r, name r)]) [] r
   \<and> extractor_ids [r] threshold scorer = [ident r]
   \<and> deduplicate_by_name_and_add_popularity [r] threshold scorer = Inr [r]"
proof -
  have d: "dict_of [(ident r, name r)] = [(ident r, name r)]"
    by (simp add: dict_of_def)
  have k: "keeps threshold scorer (dict_of [(ident r, name r)]) [] r"
    by (simp add: keeps_iff)
  then have e: "extractor_ids [r] threshold scorer = [ident r]"
    by (simp add: extractor_ids_def)
  have "deduplicate_by_name_and_add_popularity [r] threshold scorer = Inr [r]"
    by (rule dedupe_same_length) (simp add: e)
  moreover have "filtered_album_matches threshold scorer (dict_of [(ident r, name r)]) r =
     (if threshold < scorer (name r) (name r)
      then [\<lparr>album_name = name r, score = scorer (name r) (name r), album_id = ident r\<rparr>]
      else [])"
    by (simp add: d filtered_album_matches_def album_matches_def process_extract_def)
  ultimately show ?thesis using k e by simp
qed

theorem single_record_kept_witness:
  "filtered_album_matches 99 exact_scorer (dict_of [(''a'', ''Hits'')]) (track ''a'' ''Hits'' 80) =
     [\<lparr>album_name = ''Hits'', score = 100, album_id = ''a''\<rparr>]
   \<and> deduplicate_by_name_and_add_popularity [track ''a'' ''Hits'' 80] 99 exact_scorer =
     Inr [track ''a'' ''Hits'' 80]"
  using single_record_kept [of 99 exact_scorer "track ''a'' ''Hits'' 80"]
  by (simp add: track_def exact_scorer_def)

text \<open>
  Claim C10. For a non-empty input the first record is kept, whatever the threshold and the
  scorer: the condition of the loop holds for it, because nothing has been kept when it is
  examined, and its identifier is the first of the kept identifiers. So every list the engine returns is non-empty and holds a
  record with that identifier; and it returns one when every record carries a popularity.
\<close>

theorem dedupe_first_kept:
  assumes "albums \<noteq> []"
  shows "keeps threshold scorer (dict_of (map (\<lambda>album. (ident album, name album)) albums)) [] (hd albums)
    \<and> hd (extractor_ids albums threshold scorer) = ident (hd albums)
    \<and> extractor_ids albums threshold scorer \<noteq> []
    \<and> (\<forall>out. deduplicate_by_name_and_add_popularity albums threshold scorer = Inr out \<longrightarrow>
          out \<noteq> [] \<and> ident (hd albums) \<in> set (map ident out))
    \<and> ((\<forall>a \<in> set albums. popularity a \<noteq> None) \<longrightarrow>
          (\<exists>out. deduplicate_by_name_and_add_popularity albums threshold scorer = Inr out))"
proof -
  obtain a rest where albums: "albums = a # rest"
    using assms by (cases albums) auto
  obtain ks where ks: "extractor_ids albums threshold scorer = ident a # ks"
    using extractor_ids_Cons [of a rest threshold scorer] albums by auto
  have out: "out \<noteq> [] \<and> ident (hd albums) \<in> set (map ident out)"
    if run: "deduplicate_by_name_and_add_popularity albums threshold scorer = Inr out" for out
    using dedupe_Inr [OF run]
  proof (elim disjE conjE exE)
    assume "out = albums"
    then show ?thesis using albums by simp
  next
    fix kept
    assume kept: "map ident kept = extractor_ids albums threshold scorer"
      "sorted_reverse popularity_key kept = Inr out"
    have m: "mset out = mset kept"
      using sorted_reverse_Inr(1) [OF kept(2)] .
    have "set (map ident out) = set (map ident kept)"
      using mset_eq_setD [OF m] by simp
    then have "ident a \<in> set (map ident out)"
      using kept(1) ks by simp
    then show ?thesis using albums by auto
  qed
  have "\<exists>out. deduplicate_by_name_and_add_popularity albums threshold scorer = Inr out"
    if "\<forall>a \<in> set albums. popularity a \<noteq> None"
    using that by (intro dedupe_total) simp
  moreover have "keeps threshold scorer (dict_of (map (\<lambda>album. (ident album, name album)) albums)) []
      (hd albums)"
    by (simp add: keeps_iff)
  ultimately show ?thesis
    using ks albums out by simp
qed

theorem dedupe_first_kept_witness:
  "hd (extractor_ids [track ''a'' ''Hits'' 80, track ''b'' ''Hits'' 60, track ''c'' ''Live'' 70]
     99 exact_scorer) = ''a''"
  using dedupe_first_kept [of "[track ''a'' ''Hits'' 80, track ''b'' ''Hits'' 60, track ''c'' ''Live'' 70]"
      99 exact_scorer]
  by (simp add: track_def)

end
